theory Spec2Isabelle
  imports Main "HOL-Library.Word"
begin

section \<open>Constants and result codes\<close>

text \<open>
  The storage manager (\<^verbatim>\<open>Assign1/storage_mgr.c\<close>) and the buffer manager
  (\<^verbatim>\<open>buffer_mgr.c\<close>) include \<^verbatim>\<open>dberror.h\<close>, \<^verbatim>\<open>storage_mgr.h\<close> and
  \<^verbatim>\<open>buffer_mgr.h\<close>. The constants, result codes and handle structures those
  headers declare are written down here from the way the two C files use them.
\<close>

type_synonym byte = "8 word"

text \<open>Modelled from the spec: \<^verbatim>\<open>PAGE_SIZE\<close> of \<^verbatim>\<open>dberror.h\<close>, the fixed
  size of a page in bytes ("compile-time constant, e.g. 4096").\<close>

definition PAGE_SIZE :: nat where
  "PAGE_SIZE = 4096"

text \<open>Modelled from the spec: \<^verbatim>\<open>NO_PAGE\<close> of \<^verbatim>\<open>buffer_mgr.h\<close>, the page
  number of an empty frame (\<open>-1\<close>).\<close>

definition NO_PAGE :: int where
  "NO_PAGE = - 1"

text \<open>
  C \<^verbatim>\<open>int\<close> is 32 bits wide. Page numbers and pin counts are integers here,
  and where the code adds one to an \<^verbatim>\<open>int\<close> that has no upper bound
  (\<^verbatim>\<open>slot->pinCount++\<close>, \<^verbatim>\<open>pid + 1\<close>) the sum is brought back into the range of
  \<^verbatim>\<open>int\<close> by \<open>int32\<close>: \<^verbatim>\<open>INT_MAX + 1\<close> is \<^verbatim>\<open>INT_MIN\<close>.
\<close>

definition int32 :: "int \<Rightarrow> int" where
  "int32 x = (x + 2147483648) mod 4294967296 - 2147483648"

text \<open>Modelled from the spec: the result codes of \<^verbatim>\<open>dberror.h\<close> that the two
  files return.\<close>

datatype RC =
    RC_OK
  | RC_FILE_NOT_FOUND
  | RC_FILE_HANDLE_NOT_INIT
  | RC_WRITE_FAILED
  | RC_READ_NON_EXISTING_PAGE

text \<open>Modelled from the spec: the strategy identifiers of \<^verbatim>\<open>buffer_mgr.h\<close>.\<close>

datatype ReplacementStrategy = RS_FIFO | RS_LRU | RS_CLOCK | RS_LFU | RS_LRU_K

text \<open>
  \<^verbatim>\<open>CHECK(rc)\<close> of \<^verbatim>\<open>dberror.h\<close> prints the error and calls \<^verbatim>\<open>exit(1)\<close> when
  \<open>rc\<close> is not \<^verbatim>\<open>RC_OK\<close>; a call that may end the process returns a \<open>proc\<close>.
  \<^verbatim>\<open>THROW(rc, msg)\<close> stores the message in a global and returns \<open>rc\<close>; only
  the returned code is kept.
\<close>

datatype 'a proc = Exit int | Return 'a

section \<open>The C library underneath the storage manager\<close>

text \<open>
  The environment the C library calls act on: the regular files by path, the paths
  \<^verbatim>\<open>fopen\<close> refuses, whether the allocator still hands out memory, the largest
  size in bytes a file may reach (a write stops there, which is how a short
  \<^verbatim>\<open>fwrite\<close> arises), and what is found in memory that \<^verbatim>\<open>malloc\<close> hands out:
  \<open>heap_junk w k j\<close> is byte \<open>j\<close> of the \<open>k\<close>-th such block. \<^verbatim>\<open>fflush\<close> and \<^verbatim>\<open>fclose\<close> succeed and have no effect
  that a later call observes: every write reaches the file at once.
\<close>

record os =
  files :: "string \<rightharpoonup> byte list"
  noaccess :: "string set"
  heap_ok :: bool
  fsize_max :: nat
  heap_junk :: "nat \<Rightarrow> nat \<Rightarrow> byte"

text \<open>An open stream (\<^verbatim>\<open>FILE *\<close>): the path it was opened on and its position.\<close>

record stream =
  spath :: string
  spos :: nat

definition c_fopen_wb :: "string \<Rightarrow> os \<Rightarrow> stream option \<times> os" where
  "c_fopen_wb name w =
     (if name \<in> noaccess w then (None, w)
      else (Some \<lparr>spath = name, spos = 0\<rparr>, w\<lparr>files := (files w)(name \<mapsto> [])\<rparr>))"

definition c_fopen_rbplus :: "string \<Rightarrow> os \<Rightarrow> stream option" where
  "c_fopen_rbplus name w =
     (if name \<in> noaccess w \<or> files w name = None then None
      else Some \<lparr>spath = name, spos = 0\<rparr>)"

definition c_fseek_set :: "stream \<Rightarrow> nat \<Rightarrow> int \<times> stream" where
  "c_fseek_set st off = (0, st\<lparr>spos := off\<rparr>)"

definition c_fseek_end :: "stream \<Rightarrow> os \<Rightarrow> int \<times> stream" where
  "c_fseek_end st w =
     (case files w (spath st) of
        None \<Rightarrow> (- 1, st)
      | Some bs \<Rightarrow> (0, st\<lparr>spos := length bs\<rparr>))"

definition c_ftell :: "stream \<Rightarrow> int" where
  "c_ftell st = int (spos st)"

text \<open>\<^verbatim>\<open>calloc(n, 1)\<close>: a zeroed block of \<open>n\<close> bytes, or \<^verbatim>\<open>NULL\<close>.\<close>

definition c_calloc :: "nat \<Rightarrow> os \<Rightarrow> byte list option" where
  "c_calloc n w = (if heap_ok w then Some (replicate n 0) else None)"

text \<open>\<^verbatim>\<open>malloc(n)\<close> where the caller does not check the result: the \<open>k\<close>-th
  block, \<open>n\<close> bytes that nobody has written.\<close>

definition c_malloc :: "nat \<Rightarrow> nat \<Rightarrow> os \<Rightarrow> byte list" where
  "c_malloc k n w = map (heap_junk w k) [0 ..< n]"

text \<open>
  \<^verbatim>\<open>fwrite(buf, 1, n, fp)\<close> returns the number of bytes written: all \<open>n\<close> unless
  the file would grow past \<open>fsize_max\<close>. A position past the end of the file
  leaves a gap of zero bytes, as a seek past the end does.
\<close>

definition c_fwrite :: "byte list \<Rightarrow> nat \<Rightarrow> stream \<Rightarrow> os \<Rightarrow> nat \<times> stream \<times> os" where
  "c_fwrite buf n st w =
     (case files w (spath st) of
        None \<Rightarrow> (0, st, w)
      | Some bs \<Rightarrow>
          (let k = min n (fsize_max w - spos st);
               d = take k buf;
               p = spos st
           in if d = [] then (0, st, w)
              else (length d, st\<lparr>spos := p + length d\<rparr>,
                    w\<lparr>files := (files w)(spath st \<mapsto>
                        take p (bs @ replicate (p - length bs) 0) @ d @ drop (p + length d) bs)\<rparr>)))"

text \<open>\<^verbatim>\<open>fread(buf, 1, n, fp)\<close> returns the number of bytes read into the front
  of \<open>buf\<close>: fewer than \<open>n\<close> when the file ends first.\<close>

definition c_fread :: "byte list \<Rightarrow> nat \<Rightarrow> stream \<Rightarrow> os \<Rightarrow> nat \<times> byte list \<times> stream" where
  "c_fread buf n st w =
     (case files w (spath st) of
        None \<Rightarrow> (0, buf, st)
      | Some bs \<Rightarrow>
          (let d = take n (drop (spos st) bs)
           in (length d, d @ drop (length d) buf, st\<lparr>spos := spos st + length d\<rparr>)))"

section \<open>Storage manager\<close>

text \<open>
  \<^verbatim>\<open>FileContext\<close> and \<^verbatim>\<open>SM_FileHandle\<close>. A \<^verbatim>\<open>NULL\<close> pointer is \<open>None\<close>. The
  context is reached only through the one handle that owns it, so the handle
  holds it by value. The process-wide \<^verbatim>\<open>globalOpenCtx\<close>, which only
  \<^verbatim>\<open>destroyPageFile\<close> reads, is left out.
\<close>

record FileContext =
  fp :: "stream option"
  fname :: string
  pages :: int

record SM_FileHandle =
  fileName :: "string option"
  totalNumPages :: int
  curPagePos :: int
  mgmtInfo :: "FileContext option"

definition createPageFile :: "string \<Rightarrow> os \<Rightarrow> RC \<times> os" where
  "createPageFile name w =
     (case c_fopen_wb name w of
        (None, w1) \<Rightarrow> (RC_WRITE_FAILED, w1)
      | (Some f, w1) \<Rightarrow>
          (case c_calloc PAGE_SIZE w1 of
             None \<Rightarrow> (RC_WRITE_FAILED, w1)
           | Some zeroBuf \<Rightarrow>
               (case c_fwrite zeroBuf PAGE_SIZE f w1 of
                  (written, f2, w2) \<Rightarrow>
                    if written < PAGE_SIZE then (RC_WRITE_FAILED, w2)
                    else (RC_OK, w2))))"

definition allocateFileContext :: "string \<Rightarrow> stream \<Rightarrow> int \<Rightarrow> os \<Rightarrow> FileContext option" where
  "allocateFileContext name f totalPages w =
     (if heap_ok w then Some \<lparr>fp = Some f, fname = name, pages = totalPages\<rparr> else None)"

definition openPageFile :: "string \<Rightarrow> os \<Rightarrow> RC \<times> SM_FileHandle option" where
  "openPageFile name w =
     (case c_fopen_rbplus name w of
        None \<Rightarrow> (RC_FILE_NOT_FOUND, None)
      | Some f \<Rightarrow>
          (case c_fseek_end f w of
             (r, f1) \<Rightarrow>
               if r \<noteq> 0 then (RC_READ_NON_EXISTING_PAGE, None)
               else
                 (let fileSizeBytes = c_ftell f1 in
                  if fileSizeBytes < 0 then (RC_READ_NON_EXISTING_PAGE, None)
                  else
                    (let totalPages = fileSizeBytes div int PAGE_SIZE in
                     if \<not> heap_ok w then (RC_FILE_HANDLE_NOT_INIT, None)
                     else
                       (case allocateFileContext name f1 totalPages w of
                          None \<Rightarrow> (RC_FILE_HANDLE_NOT_INIT, None)
                        | Some ctx \<Rightarrow>
                            (RC_OK,
                             Some \<lparr>fileName = Some name, totalNumPages = totalPages,
                                   curPagePos = 0,
                                   mgmtInfo = Some (ctx\<lparr>fp := Some (snd (c_fseek_set f1 0))\<rparr>)\<rparr>))))))"

definition freeFileContext :: "FileContext option \<Rightarrow> RC" where
  "freeFileContext c =
     (case c of
        None \<Rightarrow> RC_FILE_HANDLE_NOT_INIT
      | Some ctx \<Rightarrow> (if fp ctx = None then RC_FILE_HANDLE_NOT_INIT else RC_OK))"

definition closePageFile :: "SM_FileHandle \<Rightarrow> RC \<times> SM_FileHandle" where
  "closePageFile fHandle =
     (if mgmtInfo fHandle = None then (RC_FILE_HANDLE_NOT_INIT, fHandle)
      else
        (let rc = freeFileContext (mgmtInfo fHandle) in
         if rc \<noteq> RC_OK then (rc, fHandle)
         else (RC_OK, fHandle\<lparr>fileName := None, mgmtInfo := None,
                               totalNumPages := 0, curPagePos := 0\<rparr>)))"

definition seekToPageNum :: "int \<Rightarrow> SM_FileHandle \<Rightarrow> RC \<times> SM_FileHandle" where
  "seekToPageNum pageNum fHandle =
     (case mgmtInfo fHandle of
        None \<Rightarrow> (RC_FILE_HANDLE_NOT_INIT, fHandle)
      | Some ctx \<Rightarrow>
          if pageNum < 0 \<or> pageNum \<ge> totalNumPages fHandle
          then (RC_READ_NON_EXISTING_PAGE, fHandle)
          else
            (case fp ctx of
               None \<Rightarrow> (RC_READ_NON_EXISTING_PAGE, fHandle)
             | Some f \<Rightarrow>
                 (case c_fseek_set f (nat pageNum * PAGE_SIZE) of
                    (r, f1) \<Rightarrow>
                      if r \<noteq> 0 then (RC_READ_NON_EXISTING_PAGE, fHandle)
                      else (RC_OK, fHandle\<lparr>mgmtInfo := Some (ctx\<lparr>fp := Some f1\<rparr>)\<rparr>))))"

text \<open>\<^verbatim>\<open>readBlock\<close> returns the code, the handle and the caller's page buffer.\<close>

definition readBlock ::
  "int \<Rightarrow> SM_FileHandle \<Rightarrow> byte list \<Rightarrow> os \<Rightarrow> RC \<times> SM_FileHandle \<times> byte list" where
  "readBlock pageNum fHandle memPage w =
     (if mgmtInfo fHandle = None then (RC_FILE_HANDLE_NOT_INIT, fHandle, memPage)
      else if pageNum < 0 \<or> pageNum \<ge> totalNumPages fHandle
      then (RC_READ_NON_EXISTING_PAGE, fHandle, memPage)
      else
        (case seekToPageNum pageNum fHandle of
           (rcSeek, h1) \<Rightarrow>
             if rcSeek \<noteq> RC_OK then (RC_READ_NON_EXISTING_PAGE, h1, memPage)
             else
               (case mgmtInfo h1 of
                  None \<Rightarrow> (RC_READ_NON_EXISTING_PAGE, h1, memPage)
                | Some ctx \<Rightarrow>
                    (case fp ctx of
                       None \<Rightarrow> (RC_READ_NON_EXISTING_PAGE, h1, memPage)
                     | Some f \<Rightarrow>
                         (case c_fread memPage PAGE_SIZE f w of
                            (actuallyRead, buf, f1) \<Rightarrow>
                              (let h2 = h1\<lparr>mgmtInfo := Some (ctx\<lparr>fp := Some f1\<rparr>)\<rparr> in
                               if actuallyRead < PAGE_SIZE
                               then (RC_READ_NON_EXISTING_PAGE, h2, buf)
                               else (RC_OK, h2\<lparr>curPagePos := pageNum\<rparr>, buf)))))))"

definition appendEmptyBlock :: "SM_FileHandle \<Rightarrow> os \<Rightarrow> RC \<times> SM_FileHandle \<times> os" where
  "appendEmptyBlock fHandle w =
     (case mgmtInfo fHandle of
        None \<Rightarrow> (RC_FILE_HANDLE_NOT_INIT, fHandle, w)
      | Some ctx \<Rightarrow>
          (case fp ctx of
             None \<Rightarrow> (RC_WRITE_FAILED, fHandle, w)
           | Some f \<Rightarrow>
               (case c_fseek_end f w of
                  (r, f1) \<Rightarrow>
                    (let h1 = fHandle\<lparr>mgmtInfo := Some (ctx\<lparr>fp := Some f1\<rparr>)\<rparr> in
                     if r \<noteq> 0 then (RC_WRITE_FAILED, h1, w)
                     else
                       (case c_calloc PAGE_SIZE w of
                          None \<Rightarrow> (RC_WRITE_FAILED, h1, w)
                        | Some zeroBuf \<Rightarrow>
                            (case c_fwrite zeroBuf PAGE_SIZE f1 w of
                               (written, f2, w2) \<Rightarrow>
                                 if written < PAGE_SIZE
                                 then (RC_WRITE_FAILED,
                                       fHandle\<lparr>mgmtInfo := Some (ctx\<lparr>fp := Some f2\<rparr>)\<rparr>, w2)
                                 else
                                   (RC_OK,
                                    fHandle\<lparr>mgmtInfo :=
                                               Some (ctx\<lparr>fp := Some f2, pages := pages ctx + 1\<rparr>),
                                            totalNumPages := pages ctx + 1,
                                            curPagePos := pages ctx + 1 - 1\<rparr>, w2)))))))"

text \<open>
  \<^verbatim>\<open>ensureCapacity\<close> appends empty pages while the handle's page count is below
  the target. Each successful append raises the context's page count by one and
  copies it into the handle, which bounds the loop. C \<^verbatim>\<open>int\<close> values are
  unbounded integers here: page counts stay far below \<open>2^31\<close>.
\<close>

function ensureCapacity_loop :: "int \<Rightarrow> SM_FileHandle \<Rightarrow> os \<Rightarrow> RC \<times> SM_FileHandle \<times> os" where
  "ensureCapacity_loop numberOfPages fHandle w =
     (if totalNumPages fHandle < numberOfPages then
        (case appendEmptyBlock fHandle w of
           (rc, h1, w1) \<Rightarrow>
             if rc \<noteq> RC_OK then (rc, h1, w1)
             else ensureCapacity_loop numberOfPages h1 w1)
      else (RC_OK, fHandle, w))"
  by pat_completeness auto

lemma appendEmptyBlock_ok:
  assumes "appendEmptyBlock h w = (RC_OK, h1, w1)"
  shows "\<exists>ctx ctx1. mgmtInfo h = Some ctx \<and> mgmtInfo h1 = Some ctx1 \<and>
           pages ctx1 = pages ctx + 1 \<and> totalNumPages h1 = pages ctx + 1"
  using assms
  by (auto simp: appendEmptyBlock_def Let_def split: option.splits prod.splits if_splits)

termination ensureCapacity_loop
  apply (relation "measure (\<lambda>(n, h, w).
          if totalNumPages h < n
          then 1 + nat (n - (case mgmtInfo h of None \<Rightarrow> n | Some ctx \<Rightarrow> pages ctx))
          else 0)")
   apply simp
  apply (auto dest!: appendEmptyBlock_ok [OF sym] split: option.splits)
  done

declare ensureCapacity_loop.simps [simp del]

definition ensureCapacity :: "int \<Rightarrow> SM_FileHandle \<Rightarrow> os \<Rightarrow> RC \<times> SM_FileHandle \<times> os" where
  "ensureCapacity numberOfPages fHandle w =
     (if mgmtInfo fHandle = None then (RC_FILE_HANDLE_NOT_INIT, fHandle, w)
      else if numberOfPages < 0 then (RC_WRITE_FAILED, fHandle, w)
      else ensureCapacity_loop numberOfPages fHandle w)"

definition writeBlock ::
  "int \<Rightarrow> SM_FileHandle \<Rightarrow> byte list \<Rightarrow> os \<Rightarrow> RC \<times> SM_FileHandle \<times> os" where
  "writeBlock pageNum fHandle memPage w =
     (if mgmtInfo fHandle = None then (RC_FILE_HANDLE_NOT_INIT, fHandle, w)
      else if pageNum < 0 then (RC_WRITE_FAILED, fHandle, w)
      else
        (case (if pageNum \<ge> totalNumPages fHandle
               then ensureCapacity (pageNum + 1) fHandle w
               else (RC_OK, fHandle, w)) of
           (rcExtend, h1, w1) \<Rightarrow>
             if rcExtend \<noteq> RC_OK then (RC_WRITE_FAILED, h1, w1)
             else
               (case seekToPageNum pageNum h1 of
                  (rcSeek, h2) \<Rightarrow>
                    if rcSeek \<noteq> RC_OK then (RC_WRITE_FAILED, h2, w1)
                    else
                      (case mgmtInfo h2 of
                         None \<Rightarrow> (RC_WRITE_FAILED, h2, w1)
                       | Some ctx \<Rightarrow>
                           (case fp ctx of
                              None \<Rightarrow> (RC_WRITE_FAILED, h2, w1)
                            | Some f \<Rightarrow>
                                (case c_fwrite memPage PAGE_SIZE f w1 of
                                   (written, f1, w2) \<Rightarrow>
                                     (let h3 = h2\<lparr>mgmtInfo := Some (ctx\<lparr>fp := Some f1\<rparr>)\<rparr> in
                                      if written < PAGE_SIZE then (RC_WRITE_FAILED, h3, w2)
                                      else (RC_OK, h3\<lparr>curPagePos := pageNum\<rparr>, w2))))))))"

section \<open>Buffer manager\<close>

text \<open>
  A \<^verbatim>\<open>Frame *\<close> is the index of the frame in the pool's \<^verbatim>\<open>frames\<close> array, or
  \<open>None\<close> for \<^verbatim>\<open>NULL\<close>; the \<^verbatim>\<open>prev\<close> and \<^verbatim>\<open>next\<close> links of the LRU list
  are such pointers, updated in place in the array as the C code does. Every
  frame owns its page buffer, held by value. The frame count, the FIFO ring's
  head, count and entries are C \<^verbatim>\<open>int\<close>s that never go negative and are natural
  numbers here; page numbers and pin counts are integers kept in the range of
  \<^verbatim>\<open>int\<close> by \<open>int32\<close>, the I/O counters are \<^verbatim>\<open>unsigned\<close> and wrap at \<open>2^32\<close>.
\<close>

record Frame =
  pageId :: int
  data :: "byte list"
  isDirty :: bool
  pinCount :: int
  prev :: "nat option"
  next' :: "nat option"

record PoolMetadata =
  fh :: SM_FileHandle
  frames :: "Frame list"
  capacity :: nat
  strat :: ReplacementStrategy
  readIO :: "32 word"
  writeIO :: "32 word"
  fifoQ :: "nat list"
  fifoHead :: nat
  fifoCount :: nat
  lruHead :: "nat option"
  lruTail :: "nat option"

text \<open>Modelled from the spec: \<^verbatim>\<open>BM_BufferPool\<close> and \<^verbatim>\<open>BM_PageHandle\<close> of
  \<^verbatim>\<open>buffer_mgr.h\<close>. The handle's \<^verbatim>\<open>data\<close> pointer names the frame whose
  buffer it points into.\<close>

record BM_BufferPool =
  pageFile :: "string option"
  numPages :: nat
  strategy :: ReplacementStrategy
  mgmtData :: "PoolMetadata option"

record BM_PageHandle =
  pageNum :: int
  pdata :: "nat option"

definition moveToLRUHead :: "PoolMetadata \<Rightarrow> nat option \<Rightarrow> PoolMetadata" where
  "moveToLRUHead md fo =
     (case fo of
        None \<Rightarrow> md
      | Some f \<Rightarrow>
          if lruHead md = Some f then md
          else
            (let fs = frames md;
                 fs1 = (case prev (fs ! f) of
                          None \<Rightarrow> fs
                        | Some p \<Rightarrow> fs[p := (fs ! p)\<lparr>next' := next' (fs ! f)\<rparr>]);
                 fs2 = (case next' (fs1 ! f) of
                          None \<Rightarrow> fs1
                        | Some n \<Rightarrow> fs1[n := (fs1 ! n)\<lparr>prev := prev (fs1 ! f)\<rparr>]);
                 tail1 = (if lruTail md = Some f then prev (fs2 ! f) else lruTail md);
                 fs3 = fs2[f := (fs2 ! f)\<lparr>prev := None, next' := lruHead md\<rparr>];
                 fs4 = (case lruHead md of
                          None \<Rightarrow> fs3
                        | Some h \<Rightarrow> fs3[h := (fs3 ! h)\<lparr>prev := Some f\<rparr>]);
                 tail2 = (if tail1 = None then Some f else tail1)
             in md\<lparr>frames := fs4, lruHead := Some f, lruTail := tail2\<rparr>))"

text \<open>
  The FIFO branch of \<^verbatim>\<open>selectVictim\<close>: at most \<open>count\<close> rounds, each taking the
  entry at the head out of the ring before looking at its pin count.
\<close>

fun fifo_scan :: "PoolMetadata \<Rightarrow> nat \<Rightarrow> nat option \<times> PoolMetadata" where
  "fifo_scan md 0 = (None, md)"
| "fifo_scan md (Suc n) =
     (let idx = fifoQ md ! fifoHead md;
          md1 = md\<lparr>fifoHead := (fifoHead md + 1) mod capacity md,
                   fifoCount := fifoCount md - 1\<rparr>
      in if pinCount (frames md1 ! idx) = 0 then (Some idx, md1)
         else fifo_scan md1 n)"

text \<open>
  The LRU branch: \<^verbatim>\<open>while (f && f->pinCount > 0) f = f->prev;\<close>. Nothing in the
  loop bounds it, so it is a partial function: \<open>None\<close> is a scan that never ends.
\<close>

partial_function (option) lru_scan :: "Frame list \<Rightarrow> nat option \<Rightarrow> nat option option" where
  "lru_scan fs f =
     (case f of
        None \<Rightarrow> Some None
      | Some i \<Rightarrow> if pinCount (fs ! i) > 0 then lru_scan fs (prev (fs ! i)) else Some (Some i))"

definition selectVictim :: "PoolMetadata \<Rightarrow> (nat option \<times> PoolMetadata) option" where
  "selectVictim md =
     (if strat md = RS_FIFO then Some (fifo_scan md (fifoCount md))
      else map_option (\<lambda>v. (v, md)) (lru_scan (frames md) (lruTail md)))"

definition enqueueFIFO :: "PoolMetadata \<Rightarrow> nat \<Rightarrow> PoolMetadata" where
  "enqueueFIFO md idx =
     (let tail = (fifoHead md + fifoCount md) mod capacity md
      in md\<lparr>fifoQ := (fifoQ md)[tail := idx], fifoCount := fifoCount md + 1\<rparr>)"

text \<open>
  \<^verbatim>\<open>initBufferPool\<close>. Its own allocations are unchecked in the source and taken
  to succeed. The page buffer of frame \<open>i\<close> is whatever \<^verbatim>\<open>malloc(PAGE_SIZE)\<close>
  returned for it; \<^verbatim>\<open>pinPage\<close> hands that buffer out after a load that read
  nothing. The cells of the FIFO ring, from \<^verbatim>\<open>malloc\<close> as well, are zero here:
  the code reads a cell only after \<^verbatim>\<open>enqueueFIFO\<close> has written it.
\<close>

definition initBufferPool ::
  "BM_BufferPool \<Rightarrow> string \<Rightarrow> nat \<Rightarrow> ReplacementStrategy \<Rightarrow> os \<Rightarrow> (RC \<times> BM_BufferPool) proc" where
  "initBufferPool bm pageFileName n st w =
     (case openPageFile pageFileName w of
        (rc, h) \<Rightarrow>
          if rc = RC_FILE_NOT_FOUND then Return (RC_FILE_NOT_FOUND, bm)
          else if rc \<noteq> RC_OK then Exit 1
          else
            (case h of
               None \<Rightarrow> Exit 1
             | Some fh0 \<Rightarrow>
                 Return (RC_OK,
                   \<lparr>pageFile = Some pageFileName, numPages = n, strategy = st,
                    mgmtData = Some
                      \<lparr>fh = fh0,
                       frames = map
                         (\<lambda>i. \<lparr>pageId = NO_PAGE, data = c_malloc i PAGE_SIZE w, isDirty = False,
                               pinCount = 0, prev = None, next' = None\<rparr>) [0 ..< n],
                       capacity = n, strat = st, readIO = 0, writeIO = 0,
                       fifoQ = replicate n 0, fifoHead = 0, fifoCount = 0,
                       lruHead = None, lruTail = None\<rparr>\<rparr>)))"

text \<open>
  The body of the flush loops. Both loops run \<open>i\<close> over \<open>0 ..< capacity\<close>, which
  the body does not change, and ignore what \<^verbatim>\<open>writeBlock\<close> returns; only
  \<^verbatim>\<open>forceFlushPool\<close> clears the dirty flag.
\<close>

definition flush_frame :: "bool \<Rightarrow> nat \<Rightarrow> PoolMetadata \<times> os \<Rightarrow> PoolMetadata \<times> os" where
  "flush_frame clear i s =
     (case s of
        (md, w) \<Rightarrow>
          (let f = frames md ! i in
           if pageId f \<noteq> NO_PAGE \<and> isDirty f \<and> pinCount f = 0 then
             (case writeBlock (pageId f) (fh md) (data f) w of
                (rc, h1, w1) \<Rightarrow>
                  (md\<lparr>fh := h1, writeIO := writeIO md + 1,
                      frames := (if clear then (frames md)[i := f\<lparr>isDirty := False\<rparr>]
                                 else frames md)\<rparr>, w1))
           else (md, w)))"

definition shutdownBufferPool :: "BM_BufferPool \<Rightarrow> os \<Rightarrow> RC \<times> BM_BufferPool \<times> os" where
  "shutdownBufferPool bm w =
     (case mgmtData bm of
        None \<Rightarrow> (RC_FILE_HANDLE_NOT_INIT, bm, w)
      | Some md \<Rightarrow>
          (case fold (flush_frame False) [0 ..< capacity md] (md, w) of
             (md1, w1) \<Rightarrow>
               (case closePageFile (fh md1) of
                  (rc, h1) \<Rightarrow> (RC_OK, bm\<lparr>mgmtData := None, pageFile := None\<rparr>, w1))))"

definition forceFlushPool :: "BM_BufferPool \<Rightarrow> os \<Rightarrow> RC \<times> BM_BufferPool \<times> os" where
  "forceFlushPool bm w =
     (case mgmtData bm of
        None \<Rightarrow> (RC_FILE_HANDLE_NOT_INIT, bm, w)
      | Some md \<Rightarrow>
          (case fold (flush_frame True) [0 ..< capacity md] (md, w) of
             (md1, w1) \<Rightarrow> (RC_OK, bm\<lparr>mgmtData := Some md1\<rparr>, w1)))"

text \<open>
  The first loop of \<^verbatim>\<open>pinPage\<close> over the pool's frames and capacity: \<open>Inl i\<close>
  when frame \<open>i\<close> holds the page (the loop returns from there), \<open>Inr freeIdx\<close>
  when the loop runs to its end.
\<close>

function pin_scan :: "Frame list \<Rightarrow> nat \<Rightarrow> int \<Rightarrow> nat \<Rightarrow> nat option \<Rightarrow> nat + nat option" where
  "pin_scan fs cap pid i freeIdx =
     (if i < cap then
        (if pageId (fs ! i) = pid then Inl i
         else pin_scan fs cap pid (Suc i)
                (if pageId (fs ! i) = NO_PAGE \<and> freeIdx = None then Some i else freeIdx))
      else Inr freeIdx)"
  by pat_completeness auto

termination pin_scan
  by (relation "measure (\<lambda>(fs, cap, pid, i, freeIdx). cap - i)") auto

declare pin_scan.simps [simp del]

text \<open>
  \<^verbatim>\<open>pinPage\<close> drops the codes that \<^verbatim>\<open>writeBlock\<close>, \<^verbatim>\<open>ensureCapacity\<close> and
  \<^verbatim>\<open>readBlock\<close> return. The model hands them out beside the result, in call
  order, so that theorems can speak about them; \<open>pinPage\<close> itself is the
  result alone.
\<close>

datatype io_call = WriteBack RC | Grow RC | Load RC

text \<open>The victim branch of a miss (lines 175 to 180): \<open>Inl\<close> when no victim is
  found, \<open>Inr\<close> with the chosen slot otherwise.\<close>

definition pin_victim ::
  "PoolMetadata \<Rightarrow> os \<Rightarrow> (PoolMetadata + nat \<times> PoolMetadata \<times> os \<times> io_call list) option" where
  "pin_victim md w =
     (case selectVictim md of
        None \<Rightarrow> None
      | Some (None, md1) \<Rightarrow> Some (Inl md1)
      | Some (Some slot, md1) \<Rightarrow>
          if isDirty (frames md1 ! slot) then
            (case writeBlock (pageId (frames md1 ! slot)) (fh md1) (data (frames md1 ! slot)) w of
               (rc, h1, w1) \<Rightarrow>
                 Some (Inr (slot, md1\<lparr>fh := h1, writeIO := writeIO md1 + 1\<rparr>, w1, [WriteBack rc])))
          else Some (Inr (slot, md1, w, [])))"

text \<open>The load of a miss into the chosen slot (lines 182 to 193).\<close>

definition pin_load ::
  "PoolMetadata \<Rightarrow> nat \<Rightarrow> int \<Rightarrow> os \<Rightarrow> PoolMetadata \<times> BM_PageHandle \<times> os \<times> io_call list" where
  "pin_load md slot pid w =
     (case (if pid \<ge> totalNumPages (fh md)
            then (case ensureCapacity (int32 (pid + 1)) (fh md) w of
                    (rcE, h1, w1) \<Rightarrow> (h1, w1, [Grow rcE]))
            else (fh md, w, [])) of
        (h1, w1, grown) \<Rightarrow>
          (case readBlock pid h1 (data (frames md ! slot)) w1 of
             (rcR, h2, buf) \<Rightarrow>
               (let md1 = md\<lparr>fh := h2, readIO := readIO md + 1,
                             frames := (frames md)[slot := (frames md ! slot)
                                \<lparr>data := buf, pageId := pid, isDirty := False, pinCount := 1\<rparr>]\<rparr>;
                    md2 = (if strat md1 = RS_FIFO then enqueueFIFO md1 slot
                           else moveToLRUHead md1 (Some slot))
                in (md2, \<lparr>pageNum = pid, pdata = Some slot\<rparr>, w1, grown @ [Load rcR]))))"

definition pinPage_io ::
  "BM_BufferPool \<Rightarrow> BM_PageHandle \<Rightarrow> int \<Rightarrow> os \<Rightarrow>
     ((RC \<times> BM_BufferPool \<times> BM_PageHandle \<times> os) \<times> io_call list) option" where
  "pinPage_io bm ph pid w =
     (case mgmtData bm of
        None \<Rightarrow> Some ((RC_FILE_HANDLE_NOT_INIT, bm, ph, w), [])
      | Some md \<Rightarrow>
          if pid < 0 then Some ((RC_READ_NON_EXISTING_PAGE, bm, ph, w), [])
          else
            (case pin_scan (frames md) (capacity md) pid 0 None of
               Inl i \<Rightarrow>
                 (let md1 = md\<lparr>frames := (frames md)[i := (frames md ! i)
                                  \<lparr>pinCount := int32 (pinCount (frames md ! i) + 1)\<rparr>]\<rparr>;
                      md2 = (if strat md1 = RS_LRU \<or> strat md1 = RS_LRU_K
                             then moveToLRUHead md1 (Some i) else md1)
                  in Some ((RC_OK, bm\<lparr>mgmtData := Some md2\<rparr>,
                            \<lparr>pageNum = pid, pdata = Some i\<rparr>, w), []))
             | Inr (Some freeIdx) \<Rightarrow>
                 (case pin_load md freeIdx pid w of
                    (md2, ph2, w2, io) \<Rightarrow> Some ((RC_OK, bm\<lparr>mgmtData := Some md2\<rparr>, ph2, w2), io))
             | Inr None \<Rightarrow>
                 (case pin_victim md w of
                    None \<Rightarrow> None
                  | Some (Inl md1) \<Rightarrow>
                      Some ((RC_READ_NON_EXISTING_PAGE, bm\<lparr>mgmtData := Some md1\<rparr>, ph, w), [])
                  | Some (Inr (slot, md1, w1, io1)) \<Rightarrow>
                      (case pin_load md1 slot pid w1 of
                         (md2, ph2, w2, io2) \<Rightarrow>
                           Some ((RC_OK, bm\<lparr>mgmtData := Some md2\<rparr>, ph2, w2), io1 @ io2)))))"

definition pinPage ::
  "BM_BufferPool \<Rightarrow> BM_PageHandle \<Rightarrow> int \<Rightarrow> os \<Rightarrow> (RC \<times> BM_BufferPool \<times> BM_PageHandle \<times> os) option" where
  "pinPage bm ph pid w = map_option fst (pinPage_io bm ph pid w)"

text \<open>The search loop shared by \<^verbatim>\<open>unpinPage\<close>, \<^verbatim>\<open>markDirty\<close> and
  \<^verbatim>\<open>forcePage\<close>: the first frame from \<open>i\<close> on whose page number is \<open>p\<close>.\<close>

function find_page :: "Frame list \<Rightarrow> nat \<Rightarrow> int \<Rightarrow> nat \<Rightarrow> nat option" where
  "find_page fs cap p i =
     (if i < cap then
        (if pageId (fs ! i) = p then Some i else find_page fs cap p (Suc i))
      else None)"
  by pat_completeness auto

termination find_page
  by (relation "measure (\<lambda>(fs, cap, p, i). cap - i)") auto

declare find_page.simps [simp del]

definition unpinPage :: "BM_BufferPool \<Rightarrow> BM_PageHandle \<Rightarrow> RC \<times> BM_BufferPool" where
  "unpinPage bm ph =
     (case mgmtData bm of
        None \<Rightarrow> (RC_FILE_HANDLE_NOT_INIT, bm)
      | Some md \<Rightarrow>
          (case find_page (frames md) (capacity md) (pageNum ph) 0 of
             Some i \<Rightarrow>
               if pinCount (frames md ! i) > 0
               then (RC_OK, bm\<lparr>mgmtData := Some (md\<lparr>frames := (frames md)[i := (frames md ! i)
                                  \<lparr>pinCount := pinCount (frames md ! i) - 1\<rparr>]\<rparr>)\<rparr>)
               else (RC_READ_NON_EXISTING_PAGE, bm)
           | None \<Rightarrow> (RC_READ_NON_EXISTING_PAGE, bm)))"

definition markDirty :: "BM_BufferPool \<Rightarrow> BM_PageHandle \<Rightarrow> RC \<times> BM_BufferPool" where
  "markDirty bm ph =
     (case mgmtData bm of
        None \<Rightarrow> (RC_FILE_HANDLE_NOT_INIT, bm)
      | Some md \<Rightarrow>
          (case find_page (frames md) (capacity md) (pageNum ph) 0 of
             Some i \<Rightarrow>
               (RC_OK, bm\<lparr>mgmtData := Some (md\<lparr>frames := (frames md)[i := (frames md ! i)
                                  \<lparr>isDirty := True\<rparr>]\<rparr>)\<rparr>)
           | None \<Rightarrow> (RC_READ_NON_EXISTING_PAGE, bm)))"

definition forcePage :: "BM_BufferPool \<Rightarrow> BM_PageHandle \<Rightarrow> os \<Rightarrow> RC \<times> BM_BufferPool \<times> os" where
  "forcePage bm ph w =
     (case mgmtData bm of
        None \<Rightarrow> (RC_FILE_HANDLE_NOT_INIT, bm, w)
      | Some md \<Rightarrow>
          (case find_page (frames md) (capacity md) (pageNum ph) 0 of
             Some i \<Rightarrow>
               (case writeBlock (pageNum ph) (fh md) (data (frames md ! i)) w of
                  (rc, h1, w1) \<Rightarrow>
                    (RC_OK, bm\<lparr>mgmtData := Some (md\<lparr>fh := h1, writeIO := writeIO md + 1,
                        frames := (frames md)[i := (frames md ! i)\<lparr>isDirty := False\<rparr>]\<rparr>)\<rparr>, w1))
           | None \<Rightarrow> (RC_READ_NON_EXISTING_PAGE, bm, w)))"

text \<open>The statistics interface.\<close>

definition getFrameContents :: "PoolMetadata \<Rightarrow> int list" where
  "getFrameContents md = map (\<lambda>i. pageId (frames md ! i)) [0 ..< capacity md]"

definition getDirtyFlags :: "PoolMetadata \<Rightarrow> bool list" where
  "getDirtyFlags md = map (\<lambda>i. isDirty (frames md ! i)) [0 ..< capacity md]"

definition getFixCounts :: "PoolMetadata \<Rightarrow> int list" where
  "getFixCounts md = map (\<lambda>i. pinCount (frames md ! i)) [0 ..< capacity md]"

definition getNumReadIO :: "PoolMetadata \<Rightarrow> 32 word" where
  "getNumReadIO md = readIO md"

definition getNumWriteIO :: "PoolMetadata \<Rightarrow> 32 word" where
  "getNumWriteIO md = writeIO md"

section \<open>Sequences of pool operations\<close>

text \<open>
  A client's calls on one pool after \<^verbatim>\<open>initBufferPool\<close>. The calls that take a
  page handle read only its page number. \<open>ClientWrite\<close> is a client storing
  bytes through the \<^verbatim>\<open>data\<close> pointer of a handle, which points into a frame.
  A run collects the result codes; it is \<open>None\<close> when a call does not return.
\<close>

datatype pool_op =
    Pin int
  | Unpin int
  | MarkDirty int
  | ForcePage int
  | ForceFlush
  | Shutdown
  | ClientWrite nat "byte list"

definition client_write :: "BM_BufferPool \<Rightarrow> nat \<Rightarrow> byte list \<Rightarrow> BM_BufferPool" where
  "client_write bm i bs =
     (case mgmtData bm of
        None \<Rightarrow> bm
      | Some md \<Rightarrow>
          if i < length (frames md) \<and> length bs = PAGE_SIZE
          then bm\<lparr>mgmtData := Some (md\<lparr>frames := (frames md)[i := (frames md ! i)\<lparr>data := bs\<rparr>]\<rparr>)\<rparr>
          else bm)"

definition handle_for :: "int \<Rightarrow> BM_PageHandle" where
  "handle_for p = \<lparr>pageNum = p, pdata = None\<rparr>"

fun pool_step :: "pool_op \<Rightarrow> BM_BufferPool \<times> os \<Rightarrow> (RC \<times> BM_BufferPool \<times> os) option" where
  "pool_step (Pin p) (bm, w) =
     map_option (\<lambda>(rc, bm1, ph, w1). (rc, bm1, w1)) (pinPage bm (handle_for p) p w)"
| "pool_step (Unpin p) (bm, w) =
     (case unpinPage bm (handle_for p) of (rc, bm1) \<Rightarrow> Some (rc, bm1, w))"
| "pool_step (MarkDirty p) (bm, w) =
     (case markDirty bm (handle_for p) of (rc, bm1) \<Rightarrow> Some (rc, bm1, w))"
| "pool_step (ForcePage p) (bm, w) = Some (forcePage bm (handle_for p) w)"
| "pool_step ForceFlush (bm, w) = Some (forceFlushPool bm w)"
| "pool_step Shutdown (bm, w) = Some (shutdownBufferPool bm w)"
| "pool_step (ClientWrite i bs) (bm, w) = Some (RC_OK, client_write bm i bs, w)"

fun run :: "pool_op list \<Rightarrow> BM_BufferPool \<times> os \<Rightarrow> (RC list \<times> BM_BufferPool \<times> os) option" where
  "run [] s = Some ([], s)"
| "run (x # xs) s =
     (case pool_step x s of
        None \<Rightarrow> None
      | Some (rc, s1) \<Rightarrow>
          (case run xs s1 of
             None \<Rightarrow> None
           | Some (rcs, s2) \<Rightarrow> Some (rc # rcs, s2)))"

text \<open>The pool and disk a run ends in (the start, should the run not end).\<close>

definition after :: "pool_op list \<Rightarrow> BM_BufferPool \<times> os \<Rightarrow> BM_BufferPool \<times> os" where
  "after ops s = (case run ops s of None \<Rightarrow> s | Some (rcs, s1) \<Rightarrow> s1)"

text \<open>The kinds of entries in the list of storage calls of a \<^verbatim>\<open>pinPage\<close>.\<close>

fun is_load :: "io_call \<Rightarrow> bool" where
  "is_load (Load rc) = True"
| "is_load c = False"

fun is_writeback :: "io_call \<Rightarrow> bool" where
  "is_writeback (WriteBack rc) = True"
| "is_writeback c = False"


text \<open>
  What the flush loop of \<^verbatim>\<open>forceFlushPool\<close> does, said without the loop: a frame
  is flushable when it is resident, dirty and unpinned; the loop's calls of
  \<^verbatim>\<open>writeBlock\<close> are the page numbers and buffers of the flushable frames among the
  first \<open>n\<close>, in index order; each call passes the handle and the disk on,
  its code dropped; a flushed frame has its dirty flag cleared.
\<close>

definition flushable :: "Frame \<Rightarrow> bool" where
  "flushable f \<longleftrightarrow> pageId f \<noteq> NO_PAGE \<and> isDirty f \<and> pinCount f = 0"

definition flush_writes :: "Frame list \<Rightarrow> nat \<Rightarrow> (int \<times> byte list) list" where
  "flush_writes fs n =
     map (\<lambda>i. (pageId (fs ! i), data (fs ! i))) (filter (\<lambda>i. flushable (fs ! i)) [0 ..< n])"

definition write_through :: "int \<times> byte list \<Rightarrow> SM_FileHandle \<times> os \<Rightarrow> SM_FileHandle \<times> os" where
  "write_through pd s =
     (case pd of (p, d) \<Rightarrow> case s of (h, w) \<Rightarrow> case writeBlock p h d w of (rc, h1, w1) \<Rightarrow> (h1, w1))"

definition flushed :: "Frame \<Rightarrow> Frame" where
  "flushed f = (if flushable f then f\<lparr>isDirty := False\<rparr> else f)"


text \<open>
  The LRU list, read off the links. For a list \<open>xs\<close> of frame indices,
  \<open>prev_of None xs i\<close> and \<open>next_of xs i\<close> are the \<^verbatim>\<open>prev\<close> and \<^verbatim>\<open>next\<close> pointers
  frame \<open>i\<close> has to hold if the doubly linked list is \<open>xs\<close>, head first. The
  pool's links spell the list \<open>xs\<close> when the indices are distinct frames, head
  and tail point at its ends, and every frame (on the list or not) holds
  exactly those pointers.
\<close>

fun prev_of :: "nat option \<Rightarrow> nat list \<Rightarrow> nat \<Rightarrow> nat option" where
  "prev_of p [] i = None"
| "prev_of p (x # xs) i = (if i = x then p else prev_of (Some x) xs i)"

fun next_of :: "nat list \<Rightarrow> nat \<Rightarrow> nat option" where
  "next_of [] i = None"
| "next_of (x # xs) i = (if i = x then (case xs of [] \<Rightarrow> None | y # ys \<Rightarrow> Some y) else next_of xs i)"

definition lru_list :: "PoolMetadata \<Rightarrow> nat list \<Rightarrow> bool" where
  "lru_list md xs \<longleftrightarrow>
     distinct xs \<and> (\<forall>x \<in> set xs. x < length (frames md)) \<and>
     lruHead md = (case xs of [] \<Rightarrow> None | x # ys \<Rightarrow> Some x) \<and>
     lruTail md = (if xs = [] then None else Some (last xs)) \<and>
     (\<forall>i < length (frames md).
        prev (frames md ! i) = prev_of None xs i \<and> next' (frames md ! i) = next_of xs i)"


text \<open>
  The FIFO queue, read off the ring: the \<open>fifoCount\<close> entries from \<open>fifoHead\<close>
  on, wrapping at the capacity. The ring is in order when it has \<open>capacity\<close>
  cells, the head is inside it, and the queued indices are distinct resident
  frames.
\<close>

definition ring :: "PoolMetadata \<Rightarrow> nat list" where
  "ring md = map (\<lambda>k. fifoQ md ! ((fifoHead md + k) mod capacity md)) [0 ..< fifoCount md]"

definition ring_ok :: "PoolMetadata \<Rightarrow> bool" where
  "ring_ok md \<longleftrightarrow>
     length (fifoQ md) = capacity md \<and> (fifoHead md < capacity md \<or> capacity md = 0) \<and>
     distinct (ring md) \<and>
     (\<forall>x \<in> set (ring md). x < capacity md \<and> pageId (frames md ! x) \<noteq> NO_PAGE)"


text \<open>
  The invariant of a pool. A frame is in order when it is unpinned as long as
  it is empty (a pin count itself may be anything: \<^verbatim>\<open>pinCount++\<close> takes
  \<^verbatim>\<open>INT_MAX\<close> to \<^verbatim>\<open>INT_MIN\<close>); the pages of a frame array are
  unique when no page number other than \<^verbatim>\<open>NO_PAGE\<close> occurs twice. The pool
  invariant adds that the array has \<open>capacity\<close> frames and that the replacement
  structure the strategy uses is in order: the ring under FIFO, the linked list
  under every other strategy.
\<close>

definition frame_ok :: "Frame \<Rightarrow> bool" where
  "frame_ok f \<longleftrightarrow> (pageId f = NO_PAGE \<longrightarrow> pinCount f = 0)"

definition unique_pages :: "Frame list \<Rightarrow> bool" where
  "unique_pages fs \<longleftrightarrow> distinct (filter (\<lambda>p. p \<noteq> NO_PAGE) (map pageId fs))"

definition pool_inv :: "PoolMetadata \<Rightarrow> bool" where
  "pool_inv md \<longleftrightarrow>
     length (frames md) = capacity md \<and> list_all frame_ok (frames md) \<and>
     unique_pages (frames md) \<and>
     (if strat md = RS_FIFO then ring_ok md else (\<exists>xs. lru_list md xs))"

text \<open>Two pools have the same replacement bookkeeping when ring, list ends and
  links agree and no resident frame has become empty.\<close>

definition links_kept :: "PoolMetadata \<Rightarrow> PoolMetadata \<Rightarrow> bool" where
  "links_kept md md1 \<longleftrightarrow>
     capacity md1 = capacity md \<and> strat md1 = strat md \<and> fifoQ md1 = fifoQ md \<and>
     fifoHead md1 = fifoHead md \<and> fifoCount md1 = fifoCount md \<and>
     lruHead md1 = lruHead md \<and> lruTail md1 = lruTail md \<and>
     length (frames md1) = length (frames md) \<and>
     (\<forall>i < length (frames md).
        prev (frames md1 ! i) = prev (frames md ! i) \<and>
        next' (frames md1 ! i) = next' (frames md ! i) \<and>
        (pageId (frames md ! i) \<noteq> NO_PAGE \<longrightarrow> pageId (frames md1 ! i) \<noteq> NO_PAGE))"


text \<open>
  What a step may do to pinned frames: \<open>keeps_pages\<close> leaves the page number of
  every pinned frame alone, \<open>keeps_pinned\<close> its page buffer as well. A step is
  safe when it keeps both, a client's write through its handle excepted, which
  by its nature changes a buffer; a pool that was shut down stays shut down.
\<close>

definition keeps_pinned :: "PoolMetadata \<Rightarrow> PoolMetadata \<Rightarrow> bool" where
  "keeps_pinned md md1 \<longleftrightarrow>
     capacity md1 = capacity md \<and> strat md1 = strat md \<and>
     length (frames md1) = length (frames md) \<and>
     (\<forall>i < length (frames md).
        0 < pinCount (frames md ! i) \<longrightarrow>
        pageId (frames md1 ! i) = pageId (frames md ! i) \<and>
        data (frames md1 ! i) = data (frames md ! i))"

definition keeps_pages :: "PoolMetadata \<Rightarrow> PoolMetadata \<Rightarrow> bool" where
  "keeps_pages md md1 \<longleftrightarrow>
     capacity md1 = capacity md \<and> strat md1 = strat md \<and>
     length (frames md1) = length (frames md) \<and>
     (\<forall>i < length (frames md).
        0 < pinCount (frames md ! i) \<longrightarrow> pageId (frames md1 ! i) = pageId (frames md ! i))"

fun is_client_write :: "pool_op \<Rightarrow> bool" where
  "is_client_write (ClientWrite i bs) = True"
| "is_client_write x = False"

definition pool_ok :: "BM_BufferPool \<Rightarrow> bool" where
  "pool_ok bm = (case mgmtData bm of None \<Rightarrow> True | Some md \<Rightarrow> pool_inv md)"

definition step_safe :: "pool_op \<Rightarrow> BM_BufferPool \<Rightarrow> BM_BufferPool \<Rightarrow> bool" where
  "step_safe x bm bm1 =
     (case mgmtData bm of
        None \<Rightarrow> mgmtData bm1 = None
      | Some md \<Rightarrow>
          (case mgmtData bm1 of
             None \<Rightarrow> True
           | Some md1 \<Rightarrow> keeps_pages md md1 \<and> (is_client_write x \<or> keeps_pinned md md1)))"


text \<open>
  Counting pins. \<open>is_pin\<close> tells the calls of \<^verbatim>\<open>pinPage\<close> in a run from the
  others; the pin counts of a pool are within \<open>k\<close> when none is negative and
  none exceeds \<open>k\<close>.
\<close>

fun is_pin :: "pool_op \<Rightarrow> bool" where
  "is_pin (Pin p) = True"
| "is_pin x = False"

definition pin_counts :: "BM_BufferPool \<Rightarrow> int list" where
  "pin_counts bm = (case mgmtData bm of None \<Rightarrow> [] | Some md \<Rightarrow> map pinCount (frames md))"

definition pins_within :: "int \<Rightarrow> BM_BufferPool \<Rightarrow> bool" where
  "pins_within k bm \<longleftrightarrow> (\<forall>c \<in> set (pin_counts bm). 0 \<le> c \<and> c \<le> k)"


text \<open>
  Comparing two pools that differ in the strategy they were initialised with:
  \<open>restrat st\<close> is the same pool with \<open>st\<close> in both places that
  \<^verbatim>\<open>initBufferPool\<close> stores the strategy, \<open>observe\<close> is what the statistics
  functions and the page handles show of a pool, and \<open>lru_pool\<close> holds of the
  pools that run \<^verbatim>\<open>RS_LRU\<close>.
\<close>

definition restrat :: "ReplacementStrategy \<Rightarrow> BM_BufferPool \<Rightarrow> BM_BufferPool" where
  "restrat st bm =
     bm\<lparr>strategy := st, mgmtData := map_option (\<lambda>md. md\<lparr>strat := st\<rparr>) (mgmtData bm)\<rparr>"

definition observe ::
  "PoolMetadata \<Rightarrow> int list \<times> bool list \<times> int list \<times> 32 word \<times> 32 word \<times> byte list list" where
  "observe md =
     (getFrameContents md, getDirtyFlags md, getFixCounts md, getNumReadIO md,
      getNumWriteIO md, map data (frames md))"

definition lru_pool :: "BM_BufferPool \<Rightarrow> bool" where
  "lru_pool bm = (case mgmtData bm of None \<Rightarrow> True | Some md \<Rightarrow> strat md = RS_LRU)"


section \<open>Concrete disks and pools\<close>

text \<open>
  The scenarios below run on a disk that holds one page file \<^verbatim>\<open>db\<close> of \<open>k\<close> zero
  pages, on a device that takes files of up to \<open>lim\<close> pages, with every byte
  of fresh memory \<open>0xAA\<close>, and on the pool that \<^verbatim>\<open>initBufferPool\<close> makes over
  it.
\<close>

definition disk_pages :: "nat \<Rightarrow> nat \<Rightarrow> os" where
  "disk_pages k lim =
     \<lparr>files = [''db'' \<mapsto> replicate (k * PAGE_SIZE) 0], noaccess = {},
      heap_ok = True, fsize_max = lim * PAGE_SIZE, heap_junk = (\<lambda>k j. 170)\<rparr>"

definition blank_pool :: BM_BufferPool where
  "blank_pool = \<lparr>pageFile = None, numPages = 0, strategy = RS_FIFO, mgmtData = None\<rparr>"

definition opened :: "(RC \<times> BM_BufferPool) proc \<Rightarrow> BM_BufferPool" where
  "opened r = (case r of Return (rc, bm) \<Rightarrow> bm | Exit k \<Rightarrow> blank_pool)"

definition fresh_pool :: "nat \<Rightarrow> ReplacementStrategy \<Rightarrow> os \<Rightarrow> BM_BufferPool" where
  "fresh_pool n st w = opened (initBufferPool blank_pool ''db'' n st w)"

lemma PAGE_SIZE_pos: "0 < PAGE_SIZE"
  by (simp add: PAGE_SIZE_def)

lemmas init_eval =
  initBufferPool_def openPageFile_def c_fopen_rbplus_def c_fseek_end_def c_ftell_def
  allocateFileContext_def c_fseek_set_def blank_pool_def opened_def fresh_pool_def
  disk_pages_def c_malloc_def map_replicate_const

lemmas pool_eval =
  pinPage_def pinPage_io_def handle_for_def pin_load_def pin_victim_def selectVictim_def
  enqueueFIFO_def moveToLRUHead_def NO_PAGE_def readBlock_def seekToPageNum_def
  c_fread_def Let_def numeral_2_eq_2 numeral_3_eq_3 unpinPage_def markDirty_def
  forceFlushPool_def flush_frame_def ensureCapacity_def appendEmptyBlock_def c_calloc_def
  c_fwrite_def writeBlock_def ensureCapacity_loop.simps pin_scan.simps find_page.simps
  int32_def

section \<open>Facts about the storage manager\<close>






section \<open>Facts about the frame scan and the LRU list\<close>

lemma pin_scan_Inl:
  "pin_scan fs cap pid i fr = Inl k \<Longrightarrow> i \<le> k \<and> k < cap \<and> pageId (fs ! k) = pid"
proof (induction fs cap pid i fr rule: pin_scan.induct)
  case (1 fs cap pid i freeIdx)
  then show ?case
    by (subst (asm) (2) pin_scan.simps) (auto split: if_splits)
qed

lemma pin_scan_Inr:
  "pin_scan fs cap pid i fr = Inr r \<Longrightarrow> i \<le> j \<Longrightarrow> j < cap \<Longrightarrow> pageId (fs ! j) \<noteq> pid"
proof (induction fs cap pid i fr rule: pin_scan.induct)
  case (1 fs cap pid i freeIdx)
  show ?case
  proof (cases "j = i")
    case True
    with 1 show ?thesis by (subst (asm) (2) pin_scan.simps) (auto split: if_splits)
  next
    case False
    with 1 show ?thesis by (subst (asm) (2) pin_scan.simps) (auto split: if_splits)
  qed
qed

lemma pin_scan_free:
  "pin_scan fs cap pid i fr = Inr r \<Longrightarrow>
     (case fr of
        Some f \<Rightarrow> r = Some f
      | None \<Rightarrow>
          (case r of
             None \<Rightarrow> (\<forall>j. i \<le> j \<and> j < cap \<longrightarrow> pageId (fs ! j) \<noteq> NO_PAGE)
           | Some k \<Rightarrow> i \<le> k \<and> k < cap \<and> pageId (fs ! k) = NO_PAGE \<and>
                       (\<forall>j. i \<le> j \<and> j < k \<longrightarrow> pageId (fs ! j) \<noteq> NO_PAGE)))"
proof (induction fs cap pid i fr rule: pin_scan.induct)
  case (1 fs cap pid i freeIdx)
  show ?case
  proof (cases "i < cap")
    case False
    with 1(2) show ?thesis
      by (subst (asm) pin_scan.simps) (auto split: option.splits)
  next
    case True
    with 1(2) have ne: "pageId (fs ! i) \<noteq> pid"
      and rec: "pin_scan fs cap pid (Suc i)
          (if pageId (fs ! i) = NO_PAGE \<and> freeIdx = None then Some i else freeIdx) = Inr r"
      by (subst (asm) pin_scan.simps, auto split: if_splits)+
    have step: "\<And>j. i \<le> j \<Longrightarrow> j = i \<or> Suc i \<le> j" by arith
    from 1(1) [OF True ne rec] True show ?thesis
      by (auto split: option.splits if_splits dest: step)
  qed
qed

text \<open>What a frame holds apart from its list links: page number, page
  buffer, dirty flag and pin count.\<close>

definition frame_core :: "Frame \<Rightarrow> int \<times> byte list \<times> bool \<times> int" where
  "frame_core f = (pageId f, data f, isDirty f, pinCount f)"

lemma map_core_update:
  "frame_core y = frame_core (xs ! i) \<Longrightarrow> map frame_core (xs[i := y]) = map frame_core xs"
  by (cases "i < length xs") (simp_all add: map_update list_update_same_conv list_update_beyond)

lemma moveToLRUHead_core:
  "map frame_core (frames (moveToLRUHead md f)) = map frame_core (frames md)"
  by (simp add: moveToLRUHead_def Let_def map_core_update frame_core_def nth_list_update
      split: option.splits)

lemma moveToLRUHead_other:
  "fh (moveToLRUHead md f) = fh md \<and> capacity (moveToLRUHead md f) = capacity md \<and>
   strat (moveToLRUHead md f) = strat md \<and> readIO (moveToLRUHead md f) = readIO md \<and>
   writeIO (moveToLRUHead md f) = writeIO md \<and> fifoQ (moveToLRUHead md f) = fifoQ md \<and>
   fifoHead (moveToLRUHead md f) = fifoHead md \<and> fifoCount (moveToLRUHead md f) = fifoCount md \<and>
   length (frames (moveToLRUHead md f)) = length (frames md)"
  by (simp add: moveToLRUHead_def Let_def split: option.splits)

lemma nth_core:
  "map frame_core xs = map frame_core ys \<Longrightarrow> i < length ys \<Longrightarrow> frame_core (xs ! i) = frame_core (ys ! i)"
  by (metis length_map nth_map)


lemma int32_id: "- 2147483648 \<le> x \<Longrightarrow> x < 2147483648 \<Longrightarrow> int32 x = x"
  by (simp add: int32_def)

lemma int32_range: "- 2147483648 \<le> int32 x \<and> int32 x < 2147483648"
  by (simp add: int32_def)

lemma int32_add: "int32 (int32 x + y) = int32 (x + y)"
proof -
  have "(int32 x + y + 2147483648) mod 4294967296 =
        ((x + 2147483648) mod 4294967296 + y) mod 4294967296"
    by (simp add: int32_def)
  also have "\<dots> = (x + 2147483648 + y) mod 4294967296"
    by (rule mod_add_left_eq)
  finally show ?thesis by (simp add: int32_def ac_simps)
qed

lemma length_c_malloc [simp]: "length (c_malloc k n w) = n"
  by (simp add: c_malloc_def)


section \<open>A pool of one frame\<close>

text \<open>A pool of one frame under LRU: pinning the resident page again and
  again only moves its pin count, and pinning another page evicts it as soon
  as the count is not positive.\<close>

lemma run_append:
  "run (xs @ ys) s =
     (case run xs s of
        None \<Rightarrow> None
      | Some (rcs, s1) \<Rightarrow>
          (case run ys s1 of None \<Rightarrow> None | Some (rcs2, s2) \<Rightarrow> Some (rcs @ rcs2, s2)))"
  by (induction xs arbitrary: s) (auto split: option.splits)

lemma one_frame_hits:
  assumes "mgmtData bm = Some md" "frames md = [f]" "capacity md = 1" "pageId f = pid" "0 \<le> pid"
    "lruHead md = Some 0" "int32 (pinCount f) = pinCount f"
  shows "run (replicate n (Pin pid)) (bm, w) =
           Some (replicate n RC_OK,
                 bm\<lparr>mgmtData := Some (md\<lparr>frames := [f\<lparr>pinCount := int32 (pinCount f + int n)\<rparr>]\<rparr>)\<rparr>, w)"
  using assms
proof (induction n arbitrary: bm md f)
  case 0
  then show ?case by simp
next
  case (Suc n)
  let ?f = "f\<lparr>pinCount := int32 (pinCount f + 1)\<rparr>"
  let ?md = "md\<lparr>frames := [?f]\<rparr>"
  let ?bm = "bm\<lparr>mgmtData := Some ?md\<rparr>"
  have scan: "pin_scan [f] 1 pid 0 None = Inl 0"
    using Suc.prems(4) by (simp add: pin_scan.simps)
  have step: "pool_step (Pin pid) (bm, w) = Some (RC_OK, ?bm, w)"
    using Suc.prems scan
    by (simp add: pinPage_def pinPage_io_def Let_def moveToLRUHead_def)
  have "int32 (pinCount ?f) = pinCount ?f"
    using int32_range [of "pinCount f + 1"] by (simp add: int32_id)
  with Suc.prems have
    "run (replicate n (Pin pid)) (?bm, w) =
       Some (replicate n RC_OK,
             ?bm\<lparr>mgmtData := Some (?md\<lparr>frames := [?f\<lparr>pinCount := int32 (pinCount ?f + int n)\<rparr>]\<rparr>)\<rparr>, w)"
    by (intro Suc.IH) simp_all
  moreover have "int32 (pinCount ?f + int n) = int32 (pinCount f + int (Suc n))"
  proof -
    have "int32 (int32 (pinCount f + 1) + int n) = int32 (pinCount f + 1 + int n)"
      by (rule int32_add)
    then show ?thesis by (simp add: ac_simps)
  qed
  ultimately show ?case using step by (simp del: pool_step.simps)
qed

lemma one_frame_evict:
  assumes "mgmtData bm = Some md" "frames md = [f]" "capacity md = 1" "pageId f \<noteq> pid"
    "pageId f \<noteq> NO_PAGE" "0 \<le> pid" "strat md = RS_LRU" "lruHead md = Some 0"
    "lruTail md = Some 0" "pinCount f \<le> 0"
  shows "\<exists>bm1 md1 w1. pool_step (Pin pid) (bm, w) = Some (RC_OK, bm1, w1) \<and>
           mgmtData bm1 = Some md1 \<and> getFrameContents md1 = [pid] \<and> getFixCounts md1 = [1]"
proof -
  have scan: "pin_scan [f] 1 pid 0 None = Inr None"
    using assms(4,5) by (simp add: pin_scan.simps)
  have victim: "pin_victim md w = Some (Inr (0, md, w, [])) \<or>
      (\<exists>rc h1 w1. pin_victim md w = Some (Inr (0, md\<lparr>fh := h1, writeIO := writeIO md + 1\<rparr>, w1, [WriteBack rc])))"
    using assms
    by (auto simp: pin_victim_def selectVictim_def lru_scan.simps split: prod.splits)
  then obtain m0 w0 io0 where pv: "pin_victim md w = Some (Inr (0, m0, w0, io0))"
    and m0: "frames m0 = [f]" "capacity m0 = 1" "strat m0 = RS_LRU" "lruHead m0 = Some 0"
    using assms by auto
  obtain md2 ph2 w2 io2 where l: "pin_load m0 0 pid w0 = (md2, ph2, w2, io2)"
    by (cases "pin_load m0 0 pid w0") auto
  then have "capacity md2 = 1 \<and> map pageId (frames md2) = [pid] \<and> map pinCount (frames md2) = [1]"
    using m0 by (auto simp: pin_load_def Let_def moveToLRUHead_def split: prod.splits if_splits)
  then have "getFrameContents md2 = [pid] \<and> getFixCounts md2 = [1]"
    by (cases "frames md2") (auto simp: getFrameContents_def getFixCounts_def)
  moreover have "pool_step (Pin pid) (bm, w) = Some (RC_OK, bm\<lparr>mgmtData := Some md2\<rparr>, w2)"
    using assms scan pv l by (simp add: pinPage_def pinPage_io_def)
  ultimately show ?thesis
    by (intro exI [of _ "bm\<lparr>mgmtData := Some md2\<rparr>"] exI [of _ md2] exI [of _ w2]) simp
qed

lemma lru_one_frame_eval:
  "\<exists>md f. mgmtData (fst (after [Pin 0] (fresh_pool 1 RS_LRU (disk_pages 4 4), disk_pages 4 4))) = Some md \<and>
     frames md = [f] \<and> capacity md = 1 \<and> pageId f = 0 \<and> pinCount f = 1 \<and> \<not> isDirty f \<and>
     strat md = RS_LRU \<and> lruHead md = Some 0 \<and> lruTail md = Some 0"
  by (simp add: init_eval pool_eval after_def PAGE_SIZE_pos)

lemma lru_one_frame_step:
  "pool_step (Pin 0) (fresh_pool 1 RS_LRU (disk_pages 4 4), disk_pages 4 4) =
     Some (RC_OK, fst (after [Pin 0] (fresh_pool 1 RS_LRU (disk_pages 4 4), disk_pages 4 4)),
           disk_pages 4 4)"
  by (simp add: init_eval pool_eval after_def PAGE_SIZE_pos)

lemma pin_count_wraps_run:
  "\<exists>md f.
     mgmtData (fst (after [Pin 0] (fresh_pool 1 RS_LRU (disk_pages 4 4), disk_pages 4 4))) = Some md \<and>
     frames md = [f] \<and> capacity md = 1 \<and> pageId f = 0 \<and> \<not> isDirty f \<and>
     strat md = RS_LRU \<and> lruHead md = Some 0 \<and> lruTail md = Some 0 \<and>
     run (Pin 0 # replicate 2147483647 (Pin 0))
         (fresh_pool 1 RS_LRU (disk_pages 4 4), disk_pages 4 4) =
       Some (RC_OK # replicate 2147483647 RC_OK,
             (fst (after [Pin 0] (fresh_pool 1 RS_LRU (disk_pages 4 4), disk_pages 4 4)))
               \<lparr>mgmtData := Some (md\<lparr>frames := [f\<lparr>pinCount := - 2147483648\<rparr>]\<rparr>)\<rparr>,
             disk_pages 4 4)"
proof -
  let ?w = "disk_pages 4 4"
  let ?s0 = "(fresh_pool 1 RS_LRU ?w, ?w)"
  let ?P1 = "fst (after [Pin 0] ?s0)"
  from lru_one_frame_eval obtain md f where
    m: "mgmtData ?P1 = Some md" and fr: "frames md = [f]" and cap: "capacity md = 1"
    and pg: "pageId f = 0" and pc: "pinCount f = 1" and cl: "\<not> isDirty f"
    and st: "strat md = RS_LRU" and hd: "lruHead md = Some 0" and tl: "lruTail md = Some 0"
    by blast
  let ?P2 = "?P1\<lparr>mgmtData := Some (md\<lparr>frames := [f\<lparr>pinCount := - 2147483648\<rparr>]\<rparr>)\<rparr>"
  have "int32 (pinCount f) = pinCount f" using pc by (simp add: int32_def)
  from one_frame_hits [OF m fr cap pg _ hd this, of 2147483647 ?w]
  have hits: "run (replicate 2147483647 (Pin 0)) (?P1, ?w) =
      Some (replicate 2147483647 RC_OK, ?P2, ?w)"
    using pc by (simp add: int32_def)
  have "run (Pin 0 # replicate 2147483647 (Pin 0)) ?s0 =
      Some (RC_OK # replicate 2147483647 RC_OK, ?P2, ?w)"
    using hits lru_one_frame_step by (simp del: pool_step.simps)
  with m fr cap pg cl st hd tl show ?thesis by blast
qed


section \<open>Negative page numbers\<close>

text \<open>
  C9. On an initialised pool, \<^verbatim>\<open>pinPage\<close> with a negative page number returns
  \<^verbatim>\<open>RC_READ_NON_EXISTING_PAGE\<close> before it looks at any frame: the pool (frames,
  FIFO ring, LRU list, counters), the caller's handle and the disk are the
  ones it was given, and no storage call is made.
\<close>

theorem pinPage_negative_page:
  assumes "mgmtData bm = Some md" and "pid < 0"
  shows "pinPage_io bm ph pid w = Some ((RC_READ_NON_EXISTING_PAGE, bm, ph, w), []) \<and>
         pinPage bm ph pid w = Some (RC_READ_NON_EXISTING_PAGE, bm, ph, w)"
  using assms by (simp add: pinPage_def pinPage_io_def)

theorem pinPage_negative_page_witness:
  "mgmtData (fresh_pool 1 RS_LRU (disk_pages 1 1)) \<noteq> None \<and> (- 3 :: int) < 0 \<and>
   pinPage (fresh_pool 1 RS_LRU (disk_pages 1 1)) (handle_for (- 3)) (- 3) (disk_pages 1 1) =
     Some (RC_READ_NON_EXISTING_PAGE, fresh_pool 1 RS_LRU (disk_pages 1 1),
           handle_for (- 3), disk_pages 1 1)"
proof -
  have init: "mgmtData (fresh_pool 1 RS_LRU (disk_pages 1 1)) \<noteq> None"
    by (simp add: init_eval PAGE_SIZE_pos)
  then obtain md where "mgmtData (fresh_pool 1 RS_LRU (disk_pages 1 1)) = Some md"
    by blast
  from pinPage_negative_page [OF this, of "- 3" "handle_for (- 3)" "disk_pages 1 1"] init
  show ?thesis by simp
qed

section \<open>Creating a page file\<close>

text \<open>
  C8. \<^verbatim>\<open>createPageFile\<close> returns \<^verbatim>\<open>RC_OK\<close> exactly when the file can be opened
  for writing, the zero buffer can be allocated and the device takes a whole
  page; it returns \<^verbatim>\<open>RC_WRITE_FAILED\<close> otherwise. After \<^verbatim>\<open>RC_OK\<close> the file of
  that name exists and is exactly \<open>PAGE_SIZE\<close> zero bytes.
\<close>

theorem createPageFile_one_zero_page:
  "(fst (createPageFile name w) = RC_OK \<longleftrightarrow>
      name \<notin> noaccess w \<and> heap_ok w \<and> PAGE_SIZE \<le> fsize_max w) \<and>
   (fst (createPageFile name w) = RC_OK \<or> fst (createPageFile name w) = RC_WRITE_FAILED) \<and>
   (fst (createPageFile name w) = RC_OK \<longrightarrow>
      files (snd (createPageFile name w)) name = Some (replicate PAGE_SIZE 0))"
  using PAGE_SIZE_pos
  by (auto simp: createPageFile_def c_fopen_wb_def c_calloc_def c_fwrite_def Let_def
      min_def split: option.splits prod.splits if_splits)

theorem createPageFile_one_zero_page_witness:
  "fst (createPageFile ''db'' (disk_pages 3 8)) = RC_OK \<and>
   files (snd (createPageFile ''db'' (disk_pages 3 8))) ''db'' = Some (replicate PAGE_SIZE 0) \<and>
   fst (createPageFile ''db'' ((disk_pages 3 8)\<lparr>noaccess := {''db''}\<rparr>)) = RC_WRITE_FAILED \<and>
   fst (createPageFile ''db'' ((disk_pages 3 8)\<lparr>heap_ok := False\<rparr>)) = RC_WRITE_FAILED \<and>
   fst (createPageFile ''db'' ((disk_pages 3 8)\<lparr>fsize_max := 100\<rparr>)) = RC_WRITE_FAILED"
proof -
  have ok: "''db'' \<notin> noaccess (disk_pages 3 8) \<and> heap_ok (disk_pages 3 8) \<and>
            PAGE_SIZE \<le> fsize_max (disk_pages 3 8)"
    by (simp add: disk_pages_def)
  have a: "''db'' \<in> noaccess ((disk_pages 3 8)\<lparr>noaccess := {''db''}\<rparr>)" by simp
  have b: "\<not> heap_ok ((disk_pages 3 8)\<lparr>heap_ok := False\<rparr>)" by simp
  have c: "\<not> PAGE_SIZE \<le> fsize_max ((disk_pages 3 8)\<lparr>fsize_max := 100\<rparr>)"
    by (simp add: PAGE_SIZE_def)
  show ?thesis
    using createPageFile_one_zero_page [of "''db''" "disk_pages 3 8"] ok
      createPageFile_one_zero_page [of "''db''" "(disk_pages 3 8)\<lparr>noaccess := {''db''}\<rparr>"] a
      createPageFile_one_zero_page [of "''db''" "(disk_pages 3 8)\<lparr>heap_ok := False\<rparr>"] b
      createPageFile_one_zero_page [of "''db''" "(disk_pages 3 8)\<lparr>fsize_max := 100\<rparr>"] c
    by blast
qed

section \<open>Pinning a page past the end of the file\<close>



section \<open>Storage failures during a pin\<close>

text \<open>Victim selection touches only the head and count of the FIFO ring.\<close>

lemma fifo_scan_fields:
  "\<exists>h c. snd (fifo_scan md n) = md\<lparr>fifoHead := h, fifoCount := c\<rparr>"
proof (induction n arbitrary: md)
  case 0
  have "md = md\<lparr>fifoHead := fifoHead md, fifoCount := fifoCount md\<rparr>" by simp
  then show ?case by (metis fifo_scan.simps(1) snd_conv)
next
  case (Suc n)
  let ?md1 = "md\<lparr>fifoHead := (fifoHead md + 1) mod capacity md, fifoCount := fifoCount md - 1\<rparr>"
  from Suc [of ?md1] obtain h c where "snd (fifo_scan ?md1 n) = ?md1\<lparr>fifoHead := h, fifoCount := c\<rparr>"
    by blast
  then show ?case by (auto simp: Let_def)
qed

lemma selectVictim_fields:
  assumes "selectVictim md = Some (v, md1)"
  shows "\<exists>h c. md1 = md\<lparr>fifoHead := h, fifoCount := c\<rparr>"
proof (cases "strat md = RS_FIFO")
  case True
  with assms have "md1 = snd (fifo_scan md (fifoCount md))" by (simp add: selectVictim_def)
  with fifo_scan_fields [of md "fifoCount md"] show ?thesis by simp
next
  case False
  with assms have "md1 = md" by (auto simp: selectVictim_def)
  then have "md1 = md\<lparr>fifoHead := fifoHead md, fifoCount := fifoCount md\<rparr>" by simp
  then show ?thesis by blast
qed

lemma pin_victim_counters:
  assumes "pin_victim md w = Some (Inr (slot, md1, w1, io))"
  shows "readIO md1 = readIO md \<and> writeIO md1 = writeIO md + of_nat (length (filter is_writeback io)) \<and>
         filter is_load io = []"
proof -
  from assms obtain md0 where sv: "selectVictim md = Some (Some slot, md0)"
    by (auto simp: pin_victim_def split: option.splits prod.splits if_splits)
  from selectVictim_fields [OF sv] obtain h c where "md0 = md\<lparr>fifoHead := h, fifoCount := c\<rparr>"
    by blast
  with assms sv show ?thesis
    by (auto simp: pin_victim_def split: prod.splits if_splits)
qed

lemma pin_victim_none_counters:
  assumes "pin_victim md w = Some (Inl md1)"
  shows "readIO md1 = readIO md \<and> writeIO md1 = writeIO md"
proof -
  from assms have sv: "selectVictim md = Some (None, md1)"
    by (auto simp: pin_victim_def split: option.splits prod.splits if_splits)
  from selectVictim_fields [OF sv] show ?thesis by auto
qed

lemma pin_load_counters:
  assumes "pin_load md slot pid w = (md2, ph2, w2, io)"
  shows "readIO md2 = readIO md + 1 \<and> writeIO md2 = writeIO md \<and>
         length (filter is_load io) = 1 \<and> filter is_writeback io = [] \<and> io \<noteq> []"
  using assms
  by (auto simp: pin_load_def Let_def enqueueFIFO_def moveToLRUHead_other
      split: prod.splits if_splits)

lemma disk_full_pin_eval:
  "map_option (\<lambda>((rc, bm, ph, w), io). (rc, io, map_option readIO (mgmtData bm), map_option writeIO (mgmtData bm)))
     (pinPage_io (fresh_pool 1 RS_FIFO (disk_pages 1 1)) (handle_for 5) 5 (disk_pages 1 1))
   = Some (RC_OK, [Grow RC_WRITE_FAILED, Load RC_READ_NON_EXISTING_PAGE], Some 1, Some 0)"
  by (simp add: init_eval pool_eval PAGE_SIZE_pos)

lemma disk_full_writeback_eval:
  "map_option (\<lambda>((rc, bm, ph, w), io). (rc, io, map_option readIO (mgmtData bm), map_option writeIO (mgmtData bm)))
     (pinPage_io (fst (after [Pin 5, MarkDirty 5, Unpin 5] (fresh_pool 1 RS_FIFO (disk_pages 1 1), disk_pages 1 1)))
        (handle_for 0) 0
        (snd (after [Pin 5, MarkDirty 5, Unpin 5] (fresh_pool 1 RS_FIFO (disk_pages 1 1), disk_pages 1 1))))
   = Some (RC_OK, [WriteBack RC_WRITE_FAILED, Load RC_OK], Some 2, Some 1)"
  by (simp add: init_eval pool_eval after_def PAGE_SIZE_pos)


text \<open>
  C1 (as stated, refuted). On a full device (the one-page file cannot grow) a
  one-frame pool pins page 5: \<^verbatim>\<open>ensureCapacity\<close> returns \<^verbatim>\<open>RC_WRITE_FAILED\<close> and
  \<^verbatim>\<open>readBlock\<close> returns \<^verbatim>\<open>RC_READ_NON_EXISTING_PAGE\<close>, yet \<^verbatim>\<open>pinPage\<close> returns
  \<^verbatim>\<open>RC_OK\<close> and \<open>readIO\<close> becomes 1. After that page is marked dirty and
  unpinned, pinning page 0 evicts it: the write-back returns \<^verbatim>\<open>RC_WRITE_FAILED\<close>,
  \<^verbatim>\<open>pinPage\<close> again returns \<^verbatim>\<open>RC_OK\<close>, and \<open>writeIO\<close> becomes 1.
\<close>

theorem pinPage_swallows_failed_io:
  "map_option (\<lambda>((rc, bm, ph, w), io). (rc, io, map_option readIO (mgmtData bm), map_option writeIO (mgmtData bm)))
     (pinPage_io (fresh_pool 1 RS_FIFO (disk_pages 1 1)) (handle_for 5) 5 (disk_pages 1 1))
   = Some (RC_OK, [Grow RC_WRITE_FAILED, Load RC_READ_NON_EXISTING_PAGE], Some 1, Some 0) \<and>
   map_option (\<lambda>((rc, bm, ph, w), io). (rc, io, map_option readIO (mgmtData bm), map_option writeIO (mgmtData bm)))
     (pinPage_io (fst (after [Pin 5, MarkDirty 5, Unpin 5] (fresh_pool 1 RS_FIFO (disk_pages 1 1), disk_pages 1 1)))
        (handle_for 0) 0
        (snd (after [Pin 5, MarkDirty 5, Unpin 5] (fresh_pool 1 RS_FIFO (disk_pages 1 1), disk_pages 1 1))))
   = Some (RC_OK, [WriteBack RC_WRITE_FAILED, Load RC_OK], Some 2, Some 1)"
  using disk_full_pin_eval disk_full_writeback_eval by (rule conjI)


text \<open>
  Whatever \<^verbatim>\<open>pinPage\<close> returns on an initialised pool is not a code of the
  storage manager, and the counters count calls. That it returns at all is
  shown further down, for the pools a run can reach.
\<close>

lemma pinPage_io_codes:
  assumes "pinPage_io bm ph pid w = Some ((rc, bm1, ph1, w1), io)" and "mgmtData bm = Some md"
  shows "(rc = RC_OK \<or> rc = RC_READ_NON_EXISTING_PAGE \<and> io = []) \<and>
         (\<exists>md1. mgmtData bm1 = Some md1 \<and>
            readIO md1 = readIO md + of_nat (length (filter is_load io)) \<and>
            writeIO md1 = writeIO md + of_nat (length (filter is_writeback io)))"
proof (cases "pid < 0")
  case True
  with assms show ?thesis by (auto simp: pinPage_io_def)
next
  case nneg: False
  show ?thesis
  proof (cases "pin_scan (frames md) (capacity md) pid 0 None")
    case (Inl i)
    with assms nneg show ?thesis
      by (auto simp: pinPage_io_def Let_def moveToLRUHead_other)
  next
    case (Inr fr)
    show ?thesis
    proof (cases fr)
      case (Some freeIdx)
      with Inr assms nneg obtain md2 where
        l: "pin_load md freeIdx pid w = (md2, ph1, w1, io)" and "rc = RC_OK" "bm1 = bm\<lparr>mgmtData := Some md2\<rparr>"
        by (auto simp: pinPage_io_def split: prod.splits)
      with pin_load_counters [OF l] show ?thesis by simp
    next
      case None
      with Inr assms nneg obtain v where pv: "pin_victim md w = Some v"
        by (auto simp: pinPage_io_def split: option.splits)
      show ?thesis
      proof (cases v)
        case (Inl md1)
        with pv None Inr assms nneg pin_victim_none_counters [of md w md1] show ?thesis
          by (auto simp: pinPage_io_def)
      next
        case (Inr t)
        then obtain slot md1 w0 io1 where t: "v = Inr (slot, md1, w0, io1)"
          by (cases t) auto
        with pv None \<open>pin_scan (frames md) (capacity md) pid 0 None = Inr fr\<close> assms nneg
        obtain md2 io2 where l: "pin_load md1 slot pid w0 = (md2, ph1, w1, io2)"
          and r: "rc = RC_OK" "bm1 = bm\<lparr>mgmtData := Some md2\<rparr>" "io = io1 @ io2"
          by (auto simp: pinPage_io_def split: prod.splits)
        from pin_victim_counters [of md w slot md1 w0 io1] pv t pin_load_counters [OF l] r
        show ?thesis by simp
      qed
    qed
  qed
qed


section \<open>Flushing the pool\<close>

lemma flush_frame_flushable:
  "flush_frame clear i (md, w) =
     (if flushable (frames md ! i) then
        (case writeBlock (pageId (frames md ! i)) (fh md) (data (frames md ! i)) w of
           (rc, h1, w1) \<Rightarrow>
             (md\<lparr>fh := h1, writeIO := writeIO md + 1,
                 frames := (if clear then (frames md)[i := (frames md ! i)\<lparr>isDirty := False\<rparr>]
                            else frames md)\<rparr>, w1))
      else (md, w))"
  by (simp add: flush_frame_def flushable_def Let_def)

lemma flush_loop_state:
  assumes "n \<le> length (frames md)"
  shows "fold (flush_frame True) [0 ..< n] (md, w) =
           (md\<lparr>fh := fst (fold write_through (flush_writes (frames md) n) (fh md, w)),
               writeIO := writeIO md + of_nat (length (flush_writes (frames md) n)),
               frames := map flushed (take n (frames md)) @ drop n (frames md)\<rparr>,
            snd (fold write_through (flush_writes (frames md) n) (fh md, w)))"
  using assms
proof (induction n)
  case 0
  show ?case by (simp add: flush_writes_def)
next
  case (Suc n)
  let ?fs = "frames md"
  from Suc.prems have n: "n < length ?fs" by simp
  have cur: "(map flushed (take n ?fs) @ drop n ?fs) ! n = ?fs ! n"
    using n by (simp add: nth_append)
  have upd: "(map flushed (take n ?fs) @ drop n ?fs)[n := y] =
      map flushed (take n ?fs) @ y # drop (Suc n) ?fs" for y
    using n by (simp add: list_update_append Cons_nth_drop_Suc [symmetric])
  have tk: "map flushed (take (Suc n) ?fs) = map flushed (take n ?fs) @ [flushed (?fs ! n)]"
    using n by (simp add: take_Suc_conv_app_nth)
  have keep: "map flushed (take n ?fs) @ drop n ?fs =
      map flushed (take n ?fs) @ ?fs ! n # drop (Suc n) ?fs"
    using n by (simp add: Cons_nth_drop_Suc)
  let ?F = "fold write_through (flush_writes ?fs n) (fh md, w)"
  let ?mid = "(md\<lparr>fh := fst ?F,
               writeIO := writeIO md + of_nat (length (flush_writes ?fs n)),
               frames := map flushed (take n ?fs) @ drop n ?fs\<rparr>, snd ?F)"
  have "fold (flush_frame True) [0 ..< Suc n] (md, w) =
        flush_frame True n (fold (flush_frame True) [0 ..< n] (md, w))"
    by simp
  also have "\<dots> = flush_frame True n ?mid"
    using Suc.IH n by simp
  finally have step: "fold (flush_frame True) [0 ..< Suc n] (md, w) = flush_frame True n ?mid" .
  show ?case
  proof (cases "flushable (?fs ! n)")
    case True
    then have w: "flush_writes ?fs (Suc n) = flush_writes ?fs n @ [(pageId (?fs ! n), data (?fs ! n))]"
      by (simp add: flush_writes_def)
    have e1: "flush_frame True n ?mid =
        (md\<lparr>fh := fst (write_through (pageId (?fs ! n), data (?fs ! n)) ?F),
            writeIO := writeIO md + of_nat (length (flush_writes ?fs n)) + 1,
            frames := map flushed (take n ?fs) @ (?fs ! n)\<lparr>isDirty := False\<rparr> # drop (Suc n) ?fs\<rparr>,
         snd (write_through (pageId (?fs ! n), data (?fs ! n)) ?F))"
      using True by (simp add: flush_frame_flushable cur upd write_through_def split: prod.splits)
    have fl: "flushed (?fs ! n) = (?fs ! n)\<lparr>isDirty := False\<rparr>"
      using True by (simp add: flushed_def)
    show ?thesis
      unfolding step e1 by (simp add: tk w fl ac_simps)
  next
    case False
    then have w: "flush_writes ?fs (Suc n) = flush_writes ?fs n"
      by (simp add: flush_writes_def)
    have e1: "flush_frame True n ?mid = ?mid"
      using False by (simp add: flush_frame_flushable cur)
    have fl: "flushed (?fs ! n) = ?fs ! n"
      using False by (simp add: flushed_def)
    show ?thesis
      unfolding step e1 by (simp add: tk w fl keep)
  qed
qed

lemma flush_skips_eval:
  "map_option (\<lambda>(rcs, bm, w). (rcs, map_option getFrameContents (mgmtData bm),
       map_option getDirtyFlags (mgmtData bm), map_option getFixCounts (mgmtData bm)))
     (run [MarkDirty (- 1), ForceFlush] (fresh_pool 1 RS_FIFO (disk_pages 4 4), disk_pages 4 4))
   = Some ([RC_OK, RC_OK], Some [- 1], Some [True], Some [0]) \<and>
   map_option (\<lambda>(rcs, bm, w). (rcs, map_option getDirtyFlags (mgmtData bm),
       map_option writeIO (mgmtData bm), files w ''db''))
     (run [Pin 5, MarkDirty 5, Unpin 5, ForceFlush]
        (fresh_pool 1 RS_FIFO (disk_pages 1 1), disk_pages 1 1))
   = Some ([RC_OK, RC_OK, RC_OK, RC_OK], Some [False], Some 1, Some (replicate (1 * PAGE_SIZE) 0))"
  by (simp add: init_eval pool_eval PAGE_SIZE_pos getDirtyFlags_def getFixCounts_def
      getFrameContents_def)

lemma flush_wrapped_eval:
  "map_option (\<lambda>(rcs, bm, w). (last rcs, map_option getFrameContents (mgmtData bm),
       map_option getDirtyFlags (mgmtData bm), map_option getFixCounts (mgmtData bm)))
     (run (Pin 0 # replicate 2147483647 (Pin 0) @ [MarkDirty 0, ForceFlush])
        (fresh_pool 1 RS_LRU (disk_pages 4 4), disk_pages 4 4))
   = Some (RC_OK, Some [0], Some [True], Some [- 2147483648])"
proof -
  let ?w = "disk_pages 4 4"
  let ?s0 = "(fresh_pool 1 RS_LRU ?w, ?w)"
  let ?P1 = "fst (after [Pin 0] ?s0)"
  from pin_count_wraps_run obtain md f where
    m: "mgmtData ?P1 = Some md" and fr: "frames md = [f]" and cap: "capacity md = 1"
    and pg: "pageId f = 0"
    and r: "run (Pin 0 # replicate 2147483647 (Pin 0)) ?s0 =
      Some (RC_OK # replicate 2147483647 RC_OK,
            ?P1\<lparr>mgmtData := Some (md\<lparr>frames := [f\<lparr>pinCount := - 2147483648\<rparr>]\<rparr>)\<rparr>, ?w)"
    by blast
  let ?md = "md\<lparr>frames := [f\<lparr>pinCount := - 2147483648\<rparr>]\<rparr>"
  let ?P2 = "?P1\<lparr>mgmtData := Some ?md\<rparr>"
  let ?md3 = "md\<lparr>frames := [f\<lparr>pinCount := - 2147483648, isDirty := True\<rparr>]\<rparr>"
  have fl: "run [MarkDirty 0, ForceFlush] (?P2, ?w) =
      Some ([RC_OK, RC_OK], ?P1\<lparr>mgmtData := Some ?md3\<rparr>, ?w)"
    using cap pg
    by (simp add: markDirty_def handle_for_def find_page.simps forceFlushPool_def flush_frame_def)
  have r2: "run (Pin 0 # replicate 2147483647 (Pin 0) @ [MarkDirty 0, ForceFlush]) ?s0 =
      Some ((RC_OK # replicate 2147483647 RC_OK) @ [RC_OK, RC_OK], ?P1\<lparr>mgmtData := Some ?md3\<rparr>, ?w)"
    using r fl run_append [of "Pin 0 # replicate 2147483647 (Pin 0)" "[MarkDirty 0, ForceFlush]" ?s0]
    by (simp del: pool_step.simps run.simps)
  show ?thesis
    unfolding r2 using cap pg
    by (simp add: getFrameContents_def getDirtyFlags_def getFixCounts_def)
qed

text \<open>
  C5 (as stated, refuted). \<^verbatim>\<open>markDirty\<close> with a handle whose page number is
  \<^verbatim>\<open>NO_PAGE\<close> finds the empty frame 0 and marks it dirty; \<^verbatim>\<open>forceFlushPool\<close> then
  returns \<^verbatim>\<open>RC_OK\<close> and leaves that frame dirty with pin count 0, because it
  skips frames whose page number is \<^verbatim>\<open>NO_PAGE\<close>. Second, on a full device a
  dirty page 5 that never reached the one-page file is flushed: the write fails
  and the file is unchanged, yet the flag is cleared and \<open>writeIO\<close> is 1. Third,
  a page pinned \<open>2^31\<close> times has the pin count \<^verbatim>\<open>INT_MIN\<close>; marked dirty, it is
  still dirty after \<^verbatim>\<open>forceFlushPool\<close> returned \<^verbatim>\<open>RC_OK\<close>, with a pin count
  that is not positive.
\<close>

theorem forceFlushPool_leaves_empty_frame_dirty:
  "map_option (\<lambda>(rcs, bm, w). (rcs, map_option getFrameContents (mgmtData bm),
       map_option getDirtyFlags (mgmtData bm), map_option getFixCounts (mgmtData bm)))
     (run [MarkDirty (- 1), ForceFlush] (fresh_pool 1 RS_FIFO (disk_pages 4 4), disk_pages 4 4))
   = Some ([RC_OK, RC_OK], Some [- 1], Some [True], Some [0]) \<and>
   map_option (\<lambda>(rcs, bm, w). (rcs, map_option getDirtyFlags (mgmtData bm),
       map_option writeIO (mgmtData bm), files w ''db''))
     (run [Pin 5, MarkDirty 5, Unpin 5, ForceFlush]
        (fresh_pool 1 RS_FIFO (disk_pages 1 1), disk_pages 1 1))
   = Some ([RC_OK, RC_OK, RC_OK, RC_OK], Some [False], Some 1, Some (replicate (1 * PAGE_SIZE) 0)) \<and>
   map_option (\<lambda>(rcs, bm, w). (last rcs, map_option getFrameContents (mgmtData bm),
       map_option getDirtyFlags (mgmtData bm), map_option getFixCounts (mgmtData bm)))
     (run (Pin 0 # replicate 2147483647 (Pin 0) @ [MarkDirty 0, ForceFlush])
        (fresh_pool 1 RS_LRU (disk_pages 4 4), disk_pages 4 4))
   = Some (RC_OK, Some [0], Some [True], Some [- 2147483648])"
  using flush_skips_eval flush_wrapped_eval by blast


text \<open>
  C5 (amended). On an initialised pool whose frame array has \<open>capacity\<close> frames,
  \<^verbatim>\<open>forceFlushPool\<close> returns \<^verbatim>\<open>RC_OK\<close>. It calls \<^verbatim>\<open>writeBlock\<close> on exactly the
  frames that are resident, dirty and unpinned, in index order, clears the dirty
  flag of exactly those frames, and adds their number to \<open>writeIO\<close>, whatever
  the calls return. Afterwards every resident frame is clean or has a pin count
  other than 0 (the loop tests \<^verbatim>\<open>pinCount == 0\<close>; a pin count that has wrapped
  to a negative number keeps a dirty frame from being flushed).
\<close>

theorem forceFlushPool_flushes_resident:
  assumes "mgmtData bm = Some md" and "capacity md \<le> length (frames md)"
  shows "\<exists>md1 w1.
           forceFlushPool bm w = (RC_OK, bm\<lparr>mgmtData := Some md1\<rparr>, w1) \<and>
           (fh md1, w1) = fold write_through (flush_writes (frames md) (capacity md)) (fh md, w) \<and>
           writeIO md1 = writeIO md + of_nat (length (flush_writes (frames md) (capacity md))) \<and>
           readIO md1 = readIO md \<and> capacity md1 = capacity md \<and>
           length (frames md1) = length (frames md) \<and>
           (\<forall>i < capacity md. frames md1 ! i = flushed (frames md ! i)) \<and>
           (\<forall>i < capacity md.
              pageId (frames md1 ! i) \<noteq> NO_PAGE \<longrightarrow>
              \<not> isDirty (frames md1 ! i) \<or> pinCount (frames md1 ! i) \<noteq> 0)"
proof -
  let ?n = "capacity md"
  let ?F = "fold write_through (flush_writes (frames md) ?n) (fh md, w)"
  let ?md1 = "md\<lparr>fh := fst ?F,
               writeIO := writeIO md + of_nat (length (flush_writes (frames md) ?n)),
               frames := map flushed (take ?n (frames md)) @ drop ?n (frames md)\<rparr>"
  have run: "forceFlushPool bm w = (RC_OK, bm\<lparr>mgmtData := Some ?md1\<rparr>, snd ?F)"
    using assms flush_loop_state [OF assms(2), of w] by (simp add: forceFlushPool_def)
  have nth: "frames ?md1 ! i = flushed (frames md ! i)" if "i < ?n" for i
    using that assms(2) by (simp add: nth_append)
  have clean: "\<not> isDirty (flushed f) \<or> pinCount (flushed f) \<noteq> 0"
    if "pageId (flushed f) \<noteq> NO_PAGE" for f
    using that by (auto simp: flushed_def flushable_def split: if_splits)
  show ?thesis
    using run nth clean
    by (intro exI [of _ ?md1] exI [of _ "snd ?F"]) simp
qed

lemma dirty_unpinned_pool_eval:
  "map_option (\<lambda>md. (capacity md, length (frames md), map flushable (frames md)))
     (mgmtData (fst (after [Pin 0, MarkDirty 0, Unpin 0]
        (fresh_pool 1 RS_FIFO (disk_pages 4 4), disk_pages 4 4))))
   = Some (1, 1, [True])"
  by (simp add: init_eval pool_eval after_def PAGE_SIZE_pos flushable_def)

theorem forceFlushPool_flushes_resident_witness:
  "\<exists>md md1 w1.
     mgmtData (fst (after [Pin 0, MarkDirty 0, Unpin 0]
        (fresh_pool 1 RS_FIFO (disk_pages 4 4), disk_pages 4 4))) = Some md \<and>
     capacity md \<le> length (frames md) \<and>
     fst (forceFlushPool
        (fst (after [Pin 0, MarkDirty 0, Unpin 0]
           (fresh_pool 1 RS_FIFO (disk_pages 4 4), disk_pages 4 4)))
        (snd (after [Pin 0, MarkDirty 0, Unpin 0]
           (fresh_pool 1 RS_FIFO (disk_pages 4 4), disk_pages 4 4)))) = RC_OK \<and>
     mgmtData (fst (snd (forceFlushPool
        (fst (after [Pin 0, MarkDirty 0, Unpin 0]
           (fresh_pool 1 RS_FIFO (disk_pages 4 4), disk_pages 4 4)))
        (snd (after [Pin 0, MarkDirty 0, Unpin 0]
           (fresh_pool 1 RS_FIFO (disk_pages 4 4), disk_pages 4 4)))))) = Some md1 \<and>
     writeIO md1 = writeIO md + 1 \<and> getDirtyFlags md1 = [False]"
proof -
  let ?s = "after [Pin 0, MarkDirty 0, Unpin 0]
        (fresh_pool 1 RS_FIFO (disk_pages 4 4), disk_pages 4 4)"
  from dirty_unpinned_pool_eval obtain md where m: "mgmtData (fst ?s) = Some md"
    and c: "capacity md = 1" and l: "length (frames md) = 1"
    and f: "map flushable (frames md) = [True]"
    by auto
  from l f have f0: "flushable (frames md ! 0)"
    by (cases "frames md") auto
  then have fw: "length (flush_writes (frames md) (capacity md)) = 1"
    by (simp add: flush_writes_def c)
  have le: "capacity md \<le> length (frames md)" using c l by simp
  from forceFlushPool_flushes_resident [OF m le, of "snd ?s"]
  obtain md1 w1 where r: "forceFlushPool (fst ?s) (snd ?s) = (RC_OK, (fst ?s)\<lparr>mgmtData := Some md1\<rparr>, w1)"
    and wr: "writeIO md1 = writeIO md + of_nat (length (flush_writes (frames md) (capacity md)))"
    and cap: "capacity md1 = capacity md"
    and fr: "\<forall>i < capacity md. frames md1 ! i = flushed (frames md ! i)"
    by blast
  from fr c f0 have "\<not> isDirty (frames md1 ! 0)" by (simp add: flushed_def)
  then have "getDirtyFlags md1 = [False]" by (simp add: getDirtyFlags_def cap c)
  with m le r wr fw show ?thesis by simp
qed


section \<open>The FIFO scan and pinned frames\<close>

text \<open>
  C2 (the code at the failing input). A FIFO pool of two frames pins pages 0 and
  1; the ring then holds both frames. Pinning page 2 finds no victim, and the
  scan has taken both pinned entries out of the ring: its count is 0. After
  both pages are unpinned the ring is still empty, so pinning page 2 fails
  again although both frames are unpinned. The LRU branch of \<^verbatim>\<open>selectVictim\<close>
  walks the list without changing it.
\<close>

theorem fifo_scan_forgets_pinned_frames:
  "map_option (\<lambda>(rcs, bm, w). (rcs, map_option fifoCount (mgmtData bm),
       map_option getFixCounts (mgmtData bm)))
     (run [Pin 0, Pin 1] (fresh_pool 2 RS_FIFO (disk_pages 4 4), disk_pages 4 4))
   = Some ([RC_OK, RC_OK], Some 2, Some [1, 1]) \<and>
   map_option (\<lambda>(rcs, bm, w). (rcs, map_option fifoCount (mgmtData bm),
       map_option getFixCounts (mgmtData bm), map_option getFrameContents (mgmtData bm)))
     (run [Pin 0, Pin 1, Pin 2, Unpin 0, Unpin 1, Pin 2]
        (fresh_pool 2 RS_FIFO (disk_pages 4 4), disk_pages 4 4))
   = Some ([RC_OK, RC_OK, RC_READ_NON_EXISTING_PAGE, RC_OK, RC_OK, RC_READ_NON_EXISTING_PAGE],
           Some 0, Some [0, 0], Some [0, 1])"
  by (simp add: init_eval pool_eval PAGE_SIZE_pos getFixCounts_def getFrameContents_def)


text \<open>
  C3 (the code at the failing input). With both frames of a FIFO pool pinned,
  pinning the non-resident page 2 returns \<^verbatim>\<open>RC_READ_NON_EXISTING_PAGE\<close>, but the
  FIFO ring's count goes from 2 to 0: the failed call has changed the
  replacement structure.
\<close>

theorem failed_pin_empties_fifo_ring:
  "map_option (\<lambda>(rcs, bm, w). map_option (\<lambda>md. (fifoQ md, fifoHead md, fifoCount md)) (mgmtData bm))
     (run [Pin 0, Pin 1] (fresh_pool 2 RS_FIFO (disk_pages 4 4), disk_pages 4 4))
   = Some (Some ([0, 1], 0, 2)) \<and>
   map_option (\<lambda>(rcs, bm, w). (rcs, map_option (\<lambda>md. (fifoQ md, fifoHead md, fifoCount md)) (mgmtData bm)))
     (run [Pin 0, Pin 1, Pin 2] (fresh_pool 2 RS_FIFO (disk_pages 4 4), disk_pages 4 4))
   = Some ([RC_OK, RC_OK, RC_READ_NON_EXISTING_PAGE], Some ([0, 1], 0, 0))"
  by (simp add: init_eval pool_eval PAGE_SIZE_pos)

section \<open>The LRU list under \<^verbatim>\<open>moveToLRUHead\<close>\<close>

lemma prev_of_notin: "i \<notin> set xs \<Longrightarrow> prev_of p xs i = None"
  by (induction xs arbitrary: p) auto

lemma next_of_notin: "i \<notin> set xs \<Longrightarrow> next_of xs i = None"
  by (induction xs) auto

lemma next_of_range: "next_of xs i = Some y \<Longrightarrow> y \<in> set xs"
  by (induction xs) (auto split: if_splits list.splits)

lemma next_of_neq: "distinct xs \<Longrightarrow> next_of xs i \<noteq> Some i"
  by (induction xs) (auto split: list.splits dest: next_of_range)

lemma prev_of_range: "prev_of p xs i = Some y \<Longrightarrow> Some y = p \<or> y \<in> set xs"
  by (induction xs arbitrary: p) (auto split: if_splits)

lemma prev_of_neq: "distinct xs \<Longrightarrow> p \<noteq> Some i \<Longrightarrow> prev_of p xs i \<noteq> Some i"
proof (induction xs arbitrary: p)
  case Nil
  then show ?case by simp
next
  case (Cons x xs)
  then show ?case by (cases "i = x") auto
qed

lemma prev_of_head: "prev_of p xs i = (if xs \<noteq> [] \<and> i = hd xs then p else prev_of q xs i)"
  by (cases xs) auto

lemma next_of_remove1:
  "distinct xs \<Longrightarrow>
   next_of (remove1 f xs) i =
     (if i = f then None else if next_of xs i = Some f then next_of xs f else next_of xs i)"
proof (induction xs)
  case Nil
  then show ?case by simp
next
  case (Cons x xs)
  then have d: "distinct xs" and nx: "x \<notin> set xs" by auto
  note IH = Cons.IH [OF d]
  show ?case
  proof (cases "x = f")
    case True
    then have "remove1 f (x # xs) = xs" by simp
    moreover have "next_of xs i \<noteq> Some f" using nx True next_of_range by metis
    moreover have "next_of xs f = None" using nx True by (simp add: next_of_notin)
    ultimately show ?thesis using True nx
      by (cases xs) (auto simp: next_of_notin)
  next
    case False
    then have r: "remove1 f (x # xs) = x # remove1 f xs" by simp
    show ?thesis
    proof (cases "i = x")
      case ix: True
      show ?thesis
      proof (cases xs)
        case Nil
        with ix False show ?thesis by simp
      next
        case (Cons y ys)
        with ix False d show ?thesis
          by (cases ys) auto
      qed
    next
      case inx: False
      with False IH show ?thesis by simp
    qed
  qed
qed

lemma prev_of_remove1:
  "distinct xs \<Longrightarrow> p \<noteq> Some f \<Longrightarrow>
   prev_of p (remove1 f xs) i =
     (if i = f then None else if prev_of p xs i = Some f then prev_of p xs f else prev_of p xs i)"
proof (induction xs arbitrary: p)
  case Nil
  then show ?case by simp
next
  case (Cons x xs)
  then have d: "distinct xs" and nx: "x \<notin> set xs" by auto
  show ?case
  proof (cases "x = f")
    case True
    have a: "prev_of (Some f) xs i = (if xs \<noteq> [] \<and> i = hd xs then Some f else prev_of p xs i)"
      by (rule prev_of_head)
    have b: "prev_of p xs i \<noteq> Some f"
      using prev_of_range [of p xs i f] Cons.prems(2) nx True by auto
    have c: "xs \<noteq> [] \<Longrightarrow> prev_of p xs (hd xs) = p"
      by (cases xs) auto
    from True nx a b c Cons.prems(2) show ?thesis
      by (auto simp: prev_of_notin)
  next
    case False
    have ne: "Some x \<noteq> Some f" using False by simp
    from False Cons.IH [OF d ne, of ] Cons.prems(2) show ?thesis
      by (auto simp: prev_of_notin)
  qed
qed

lemma links_agree:
  "distinct xs \<Longrightarrow> j \<in> set xs \<Longrightarrow> p = None \<or> (\<exists>q. p = Some q \<and> q \<notin> set xs) \<Longrightarrow>
   (next_of xs i = Some j) = (prev_of p xs j = Some i \<and> i \<in> set xs)"
proof (induction xs arbitrary: p)
  case Nil
  then show ?case by simp
next
  case (Cons x xs)
  then have d: "distinct xs" and nx: "x \<notin> set xs" by auto
  show ?case
  proof (cases "j = x")
    case True
    then have "next_of (x # xs) i \<noteq> Some j"
      using nx next_of_range [of xs i x] next_of_neq [of "x # xs" x] Cons.prems(1)
      by (cases xs) (auto split: if_splits)
    moreover have "\<not> (prev_of p (x # xs) j = Some i \<and> i \<in> set (x # xs))"
      using True Cons.prems(3) nx by auto
    ultimately show ?thesis by simp
  next
    case False
    then have jin: "j \<in> set xs" using Cons.prems(2) by simp
    have p': "Some x = None \<or> (\<exists>q. Some x = Some q \<and> q \<notin> set xs)" using nx by simp
    note IH = Cons.IH [OF d jin p']
    show ?thesis
    proof (cases "i = x")
      case True
      have "prev_of (Some x) xs j = Some x \<longleftrightarrow> j = hd xs"
        using jin prev_of_head [of "Some x" xs j None] prev_of_range [of None xs j x] nx
        by (cases xs) auto
      with True False jin show ?thesis by (cases xs) auto
    next
      case inx: False
      have "prev_of (Some x) xs j = Some i \<longleftrightarrow> prev_of (Some x) xs j = Some i \<and> i \<in> set xs"
        using prev_of_range [of "Some x" xs j i] inx by auto
      with inx False IH show ?thesis by auto
    qed
  qed
qed

lemma prev_of_nth:
  "distinct xs \<Longrightarrow> k < length xs \<Longrightarrow>
   prev_of p xs (xs ! k) = (if k = 0 then p else Some (xs ! (k - 1)))"
proof (induction xs arbitrary: p k)
  case Nil
  then show ?case by simp
next
  case (Cons x xs)
  show ?case
  proof (cases k)
    case 0
    then show ?thesis by simp
  next
    case (Suc m)
    with Cons.prems have m: "m < length xs" and d: "distinct xs" and "xs ! m \<noteq> x"
      by auto
    with Cons.IH [OF d m, of "Some x"] Suc show ?thesis
      by (cases m) auto
  qed
qed

lemma remove1_last: "distinct xs \<Longrightarrow> xs \<noteq> [] \<Longrightarrow> remove1 (last xs) xs = butlast xs"
  by (induction xs) auto

lemma prev_of_last:
  "distinct xs \<Longrightarrow> butlast xs \<noteq> [] \<Longrightarrow> prev_of p xs (last xs) = Some (last (butlast xs))"
proof (induction xs arbitrary: p)
  case Nil
  then show ?case by simp
next
  case (Cons x xs)
  show ?case
  proof (cases "butlast xs = []")
    case True
    with Cons.prems obtain y where "xs = [y]" by (cases xs) (auto split: if_splits)
    with Cons.prems show ?thesis by auto
  next
    case False
    with Cons.prems Cons.IH [OF _ False, of "Some x"] show ?thesis by auto
  qed
qed

lemma last_remove1_other: "xs \<noteq> [] \<Longrightarrow> last xs \<noteq> f \<Longrightarrow> remove1 f xs \<noteq> [] \<and> last (remove1 f xs) = last xs"
  by (induction xs) auto


lemma nth_list_update_any: "j < length xs \<Longrightarrow> xs[i := x] ! j = (if i = j then x else xs ! j)"
  by (cases "i = j") auto

lemma moveToLRUHead_links:
  assumes "lruHead md \<noteq> Some f" "f < length (frames md)" "i < length (frames md)"
    "prev (frames md ! f) \<noteq> Some f" "next' (frames md ! f) \<noteq> Some f"
  shows "next' (frames (moveToLRUHead md (Some f)) ! i) =
           (if i = f then lruHead md
            else if prev (frames md ! f) = Some i then next' (frames md ! f)
            else next' (frames md ! i)) \<and>
         prev (frames (moveToLRUHead md (Some f)) ! i) =
           (if lruHead md = Some i then Some f
            else if i = f then None
            else if next' (frames md ! f) = Some i then prev (frames md ! f)
            else prev (frames md ! i)) \<and>
         lruTail (moveToLRUHead md (Some f)) =
           (if lruTail md = Some f
            then (if prev (frames md ! f) = None then Some f else prev (frames md ! f))
            else if lruTail md = None then Some f else lruTail md) \<and>
         lruHead (moveToLRUHead md (Some f)) = Some f"
  using assms unfolding moveToLRUHead_def Let_def
  by (cases "prev (frames md ! f)"; cases "next' (frames md ! f)"; cases "lruHead md")
     (simp_all add: nth_list_update_any)

lemma moveToLRUHead_lru_list:
  assumes inv: "lru_list md xs" and f: "f < length (frames md)"
  shows "lru_list (moveToLRUHead md (Some f)) (f # remove1 f xs)"
proof (cases "lruHead md = Some f")
  case True
  with inv obtain ys where xs: "xs = f # ys" by (cases xs) (auto simp: lru_list_def)
  have "moveToLRUHead md (Some f) = md" using True by (simp add: moveToLRUHead_def)
  with xs inv show ?thesis by simp
next
  case False
  let ?fs = "frames md" and ?md' = "moveToLRUHead md (Some f)" and ?ys = "remove1 f xs"
  from inv have d: "distinct xs" and rng: "\<forall>x \<in> set xs. x < length ?fs"
    and hd: "lruHead md = (case xs of [] \<Rightarrow> None | x # ys \<Rightarrow> Some x)"
    and tl: "lruTail md = (if xs = [] then None else Some (last xs))"
    and lk: "\<And>i. i < length ?fs \<Longrightarrow>
        prev (?fs ! i) = prev_of None xs i \<and> next' (?fs ! i) = next_of xs i"
    by (auto simp: lru_list_def)
  have P: "prev (?fs ! f) = prev_of None xs f" and N: "next' (?fs ! f) = next_of xs f"
    using lk [OF f] by auto
  have Pn: "prev (?fs ! f) \<noteq> Some f" using P prev_of_neq [OF d, of None f] by simp
  have Nn: "next' (?fs ! f) \<noteq> Some f" using N next_of_neq [OF d, of f] by simp
  have len: "length (frames ?md') = length ?fs" by (simp add: moveToLRUHead_other)
  have hdf: "xs \<noteq> [] \<Longrightarrow> hd xs \<noteq> f" using False hd by (cases xs) auto
  have ys_hd: "(case ?ys of [] \<Rightarrow> None | y # zs \<Rightarrow> Some y) = lruHead md"
    using hd hdf by (cases xs) auto
  have ys_empty: "?ys = [] \<longleftrightarrow> xs = []" using hdf by (cases xs) auto
  have dist: "distinct (f # ?ys)" using d by simp
  have range: "\<forall>x \<in> set (f # ?ys). x < length (frames ?md')"
    using rng f len set_remove1_subset [of f xs] by auto
  have head: "lruHead ?md' = (case f # ?ys of [] \<Rightarrow> None | x # zs \<Rightarrow> Some x)"
    using moveToLRUHead_links [OF False f f Pn Nn] by simp
  have tail: "lruTail ?md' = (if f # ?ys = [] then None else Some (last (f # ?ys)))"
  proof (cases "xs = []")
    case True
    with tl moveToLRUHead_links [OF False f f Pn Nn] show ?thesis by simp
  next
    case ne: False
    show ?thesis
    proof (cases "last xs = f")
      case True
      have bl: "butlast xs \<noteq> []"
        using ne True hdf by (cases xs) (auto split: if_splits)
      have "prev (?fs ! f) = Some (last (butlast xs))"
        using P prev_of_last [OF d bl, of None] True by simp
      moreover have "?ys = butlast xs" using remove1_last [OF d ne] True by simp
      ultimately show ?thesis
        using tl ne True bl moveToLRUHead_links [OF False f f Pn Nn] by simp
    next
      case nl: False
      from last_remove1_other [OF ne nl] tl ne nl moveToLRUHead_links [OF False f f Pn Nn]
      show ?thesis by simp
    qed
  qed
  have links: "prev (frames ?md' ! i) = prev_of None (f # ?ys) i \<and>
               next' (frames ?md' ! i) = next_of (f # ?ys) i" if i: "i < length (frames ?md')" for i
  proof -
    from i len have i': "i < length ?fs" by simp
    note raw = moveToLRUHead_links [OF False f i' Pn Nn]
    have nx: "next' (frames ?md' ! i) = next_of (f # ?ys) i"
    proof (cases "i = f")
      case True
      with raw ys_hd show ?thesis by simp
    next
      case nf: False
      have "(prev (?fs ! f) = Some i) = (next_of xs i = Some f)"
      proof (cases "f \<in> set xs")
        case True
        from links_agree [OF d True, of None i] P prev_of_range [of None xs f i]
        show ?thesis by auto
      next
        case False
        then show ?thesis using P next_of_range [of xs i f] by (auto simp: prev_of_notin)
      qed
      with raw nf N lk [OF i'] next_of_remove1 [OF d, of f i] show ?thesis by simp
    qed
    have pv: "prev (frames ?md' ! i) = prev_of None (f # ?ys) i"
    proof (cases "i = f")
      case True
      with raw False show ?thesis by simp
    next
      case nf: False
      have a: "prev_of (Some f) ?ys i = (if ?ys \<noteq> [] \<and> i = hd ?ys then Some f else prev_of None ?ys i)"
        by (rule prev_of_head)
      have b: "(?ys \<noteq> [] \<and> i = hd ?ys) = (lruHead md = Some i)"
        using hd hdf by (cases xs) auto
      have c: "(next' (?fs ! f) = Some i) = (prev_of None xs i = Some f)"
      proof (cases "i \<in> set xs")
        case True
        from links_agree [OF d True, of None f] N prev_of_range [of None xs i f]
        show ?thesis by auto
      next
        case False
        then show ?thesis using N prev_of_notin [of i xs None] next_of_range [of xs f i] by auto
      qed
      from raw nf a b c P lk [OF i'] prev_of_remove1 [OF d, of None f i] show ?thesis by simp
    qed
    from nx pv show ?thesis by simp
  qed
  show ?thesis
    unfolding lru_list_def using dist range head tail links by blast
qed

text \<open>On a pool whose links spell a list, the victim scan from the tail ends,
  at a frame of the list whose pin count is not positive or at \<^verbatim>\<open>NULL\<close>.\<close>

lemma lru_scan_from:
  assumes "lru_list md xs" "k < length xs"
  shows "\<exists>v. lru_scan (frames md) (Some (xs ! k)) = Some v \<and>
           (\<forall>i. v = Some i \<longrightarrow> i \<in> set xs \<and> pinCount (frames md ! i) \<le> 0)"
  using assms(2)
proof (induction k)
  case 0
  from assms(1) have d: "distinct xs" and "xs ! 0 < length (frames md)"
    and "\<forall>i < length (frames md). prev (frames md ! i) = prev_of None xs i"
    using 0 by (auto simp: lru_list_def)
  then have "prev (frames md ! (xs ! 0)) = None"
    using prev_of_nth [OF d 0, of None] by simp
  then show ?case using 0
    by (subst lru_scan.simps) (auto simp: lru_scan.simps [of _ None])
next
  case (Suc k)
  from assms(1) have d: "distinct xs" and "xs ! Suc k < length (frames md)"
    and "\<forall>i < length (frames md). prev (frames md ! i) = prev_of None xs i"
    using Suc.prems by (auto simp: lru_list_def)
  then have "prev (frames md ! (xs ! Suc k)) = Some (xs ! k)"
    using prev_of_nth [OF d Suc.prems, of None] by simp
  moreover from Suc have "\<exists>v. lru_scan (frames md) (Some (xs ! k)) = Some v \<and>
           (\<forall>i. v = Some i \<longrightarrow> i \<in> set xs \<and> pinCount (frames md ! i) \<le> 0)"
    by simp
  ultimately show ?case using Suc.prems
    by (subst lru_scan.simps) auto
qed

lemma lru_scan_terminates:
  assumes "lru_list md xs"
  shows "\<exists>v. lru_scan (frames md) (lruTail md) = Some v \<and>
           (\<forall>i. v = Some i \<longrightarrow> i \<in> set xs \<and> pinCount (frames md ! i) \<le> 0)"
proof (cases "xs = []")
  case True
  with assms have "lruTail md = None" by (simp add: lru_list_def)
  then show ?thesis by (simp add: lru_scan.simps)
next
  case False
  with assms have "lruTail md = Some (xs ! (length xs - 1))"
    by (simp add: lru_list_def last_conv_nth)
  with lru_scan_from [OF assms, of "length xs - 1"] False show ?thesis by simp
qed

section \<open>The FIFO ring\<close>

lemma ring_ok_count:
  assumes "ring_ok md"
  shows "fifoCount md \<le> capacity md"
proof -
  have "fifoCount md = length (ring md)" by (simp add: ring_def)
  also have "\<dots> = card (set (ring md))"
    using assms by (simp add: ring_ok_def distinct_card)
  also have "\<dots> \<le> card {..< capacity md}"
    using assms by (intro card_mono) (auto simp: ring_ok_def)
  finally show ?thesis by simp
qed

lemma ring_ok_room:
  assumes "ring_ok md" "idx < capacity md" "idx \<notin> set (ring md)"
  shows "fifoCount md < capacity md"
proof -
  have "fifoCount md = length (ring md)" by (simp add: ring_def)
  also have "\<dots> = card (set (ring md))"
    using assms by (simp add: ring_ok_def distinct_card)
  also have "\<dots> < card {..< capacity md}"
    using assms by (intro psubset_card_mono) (auto simp: ring_ok_def)
  finally show ?thesis by simp
qed

lemma mod_succ_shift: "((h + 1) mod c + k) mod c = (h + Suc k) mod (c::nat)"
proof -
  have "((h + 1) mod c + k) mod c = ((h + 1) + k) mod c" by (rule mod_add_left_eq)
  then show ?thesis by simp
qed

lemma ring_dequeue:
  assumes "0 < fifoCount md"
  shows "ring (md\<lparr>fifoHead := (fifoHead md + 1) mod capacity md, fifoCount := fifoCount md - 1\<rparr>) =
           tl (ring md)"
proof -
  obtain n where n: "fifoCount md = Suc n" using assms by (cases "fifoCount md") auto
  have "map (\<lambda>k. fifoQ md ! (((fifoHead md + 1) mod capacity md + k) mod capacity md)) [0 ..< n] =
        map (\<lambda>k. fifoQ md ! ((fifoHead md + Suc k) mod capacity md)) [0 ..< n]"
    by (simp only: mod_succ_shift)
  also have "\<dots> = map ((\<lambda>k. fifoQ md ! ((fifoHead md + k) mod capacity md)) \<circ> Suc) [0 ..< n]"
    by (simp add: comp_def)
  also have "\<dots> = tl (map (\<lambda>k. fifoQ md ! ((fifoHead md + k) mod capacity md)) [0 ..< Suc n])"
    by (simp add: map_Suc_upt [symmetric] upt_rec [of 0 "Suc n"] del: upt_Suc)
  finally show ?thesis by (simp add: ring_def n)
qed

lemma ring_hd:
  assumes "0 < fifoCount md" "fifoHead md < capacity md"
  shows "ring md = fifoQ md ! fifoHead md # tl (ring md)"
proof -
  obtain n where n: "fifoCount md = Suc n" using assms by (cases "fifoCount md") auto
  show ?thesis using assms(2) by (simp add: ring_def n upt_rec [of 0 "Suc n"] del: upt_Suc)
qed

lemma mod_window_distinct:
  fixes h k n c :: nat
  assumes "k < n" "n < c"
  shows "(h + k) mod c \<noteq> (h + n) mod c"
proof
  assume "(h + k) mod c = (h + n) mod c"
  then have "(h + n) mod c = (h + k) mod c" by simp
  moreover have "h + k \<le> h + n" using assms by simp
  ultimately have "c dvd (h + n) - (h + k)"
    by (simp only: mod_eq_dvd_iff_nat)
  then have "c dvd n - k" by simp
  then have "c \<le> n - k" using assms by (intro dvd_imp_le) auto
  with assms show False by simp
qed

lemma ring_enqueue:
  assumes "fifoCount md < capacity md" "length (fifoQ md) = capacity md"
  shows "ring (enqueueFIFO md idx) = ring md @ [idx]"
proof -
  let ?c = "capacity md" and ?h = "fifoHead md" and ?n = "fifoCount md"
  let ?Q = "(fifoQ md)[(?h + ?n) mod ?c := idx]"
  have c: "0 < ?c" using assms by simp
  have old: "?Q ! ((?h + k) mod ?c) = fifoQ md ! ((?h + k) mod ?c)" if "k < ?n" for k
    using mod_window_distinct [OF that assms(1), of ?h] by simp
  have new: "?Q ! ((?h + ?n) mod ?c) = idx"
    using assms c by simp
  have "map (\<lambda>k. ?Q ! ((?h + k) mod ?c)) [0 ..< ?n] =
        map (\<lambda>k. fifoQ md ! ((?h + k) mod ?c)) [0 ..< ?n]"
    using old by (intro map_cong) auto
  with new show ?thesis
    by (simp add: ring_def enqueueFIFO_def Let_def)
qed

lemma ring_ok_capacity_pos: "ring_ok md \<Longrightarrow> 0 < fifoCount md \<Longrightarrow> fifoHead md < capacity md"
proof -
  assume a: "ring_ok md" "0 < fifoCount md"
  then have "ring md \<noteq> []" by (simp add: ring_def)
  then obtain x where "x \<in> set (ring md)" by (cases "ring md") auto
  with a have "0 < capacity md" by (auto simp: ring_ok_def)
  with a show ?thesis by (auto simp: ring_ok_def)
qed

lemma fifo_scan_ring:
  assumes "ring_ok md" "n \<le> fifoCount md"
  shows "ring_ok (snd (fifo_scan md n)) \<and>
         set (ring (snd (fifo_scan md n))) \<subseteq> set (ring md) \<and>
         (\<forall>idx. fst (fifo_scan md n) = Some idx \<longrightarrow>
            idx \<in> set (ring md) \<and> idx \<notin> set (ring (snd (fifo_scan md n))) \<and>
            pinCount (frames md ! idx) = 0)"
  using assms
proof (induction n arbitrary: md)
  case 0
  then show ?case by simp
next
  case (Suc n)
  let ?md1 = "md\<lparr>fifoHead := (fifoHead md + 1) mod capacity md, fifoCount := fifoCount md - 1\<rparr>"
  let ?idx = "fifoQ md ! fifoHead md"
  from Suc.prems have pos: "0 < fifoCount md" by simp
  from ring_ok_capacity_pos [OF Suc.prems(1) pos] have h: "fifoHead md < capacity md" .
  have r1: "ring ?md1 = tl (ring md)" using ring_dequeue [OF pos] .
  have r0: "ring md = ?idx # tl (ring md)" using ring_hd [OF pos h] .
  have d: "distinct (ring md)" and v: "\<forall>x \<in> set (ring md). x < capacity md \<and> pageId (frames md ! x) \<noteq> NO_PAGE"
    and l: "length (fifoQ md) = capacity md"
    using Suc.prems(1) by (auto simp: ring_ok_def)
  from d r0 have nin: "?idx \<notin> set (tl (ring md))" by (metis distinct.simps(2))
  have sub: "set (tl (ring md)) \<subseteq> set (ring md)" by (metis list.set_sel(2) subsetI tl_Nil)
  have ok1: "ring_ok ?md1"
    unfolding ring_ok_def using r1 d v l h sub by (auto simp: distinct_tl)
  have n1: "n \<le> fifoCount ?md1" using Suc.prems(2) by simp
  note IH = Suc.IH [OF ok1 n1]
  have in0: "?idx \<in> set (ring md)" using r0 by (metis list.set_intros(1))
  show ?case
  proof (cases "pinCount (frames md ! ?idx) = 0")
    case True
    then have "fifo_scan md (Suc n) = (Some ?idx, ?md1)" by (simp add: Let_def)
    with ok1 r1 sub nin in0 True show ?thesis by simp
  next
    case False
    then have e: "fifo_scan md (Suc n) = fifo_scan ?md1 n" by (simp add: Let_def)
    from IH r1 sub show ?thesis unfolding e by auto
  qed
qed

section \<open>Lists without repeated entries\<close>

lemma distinct_filter_nth:
  "distinct (filter P ps) \<longleftrightarrow>
     (\<forall>i < length ps. \<forall>j < length ps. ps ! i = ps ! j \<and> P (ps ! i) \<longrightarrow> i = j)"
proof (induction ps)
  case Nil
  then show ?case by simp
next
  case (Cons p ps)
  show ?case
  proof
    assume l: "distinct (filter P (p # ps))"
    then have d: "distinct (filter P ps)" and np: "P p \<longrightarrow> p \<notin> set ps"
      by (auto split: if_splits)
    show "\<forall>i < length (p # ps). \<forall>j < length (p # ps). (p # ps) ! i = (p # ps) ! j \<and> P ((p # ps) ! i) \<longrightarrow> i = j"
    proof (intro allI impI)
      fix i j
      assume i: "i < length (p # ps)" and j: "j < length (p # ps)"
        and e: "(p # ps) ! i = (p # ps) ! j \<and> P ((p # ps) ! i)"
      show "i = j"
      proof (cases i)
        case 0
        with e np j show ?thesis by (cases j) auto
      next
        case (Suc i')
        show ?thesis
        proof (cases j)
          case 0
          with e np i Suc show ?thesis by auto
        next
          case (Suc j')
          with \<open>i = Suc i'\<close> e i j d Cons.IH show ?thesis by auto
        qed
      qed
    qed
  next
    assume r: "\<forall>i < length (p # ps). \<forall>j < length (p # ps). (p # ps) ! i = (p # ps) ! j \<and> P ((p # ps) ! i) \<longrightarrow> i = j"
    have "\<forall>i < length ps. \<forall>j < length ps. ps ! i = ps ! j \<and> P (ps ! i) \<longrightarrow> i = j"
    proof (intro allI impI)
      fix i j assume "i < length ps" "j < length ps" "ps ! i = ps ! j \<and> P (ps ! i)"
      with r [rule_format, of "Suc i" "Suc j"] show "i = j" by auto
    qed
    with Cons.IH have d: "distinct (filter P ps)" by simp
    have "P p \<Longrightarrow> p \<notin> set ps"
    proof
      assume "P p" "p \<in> set ps"
      then obtain k where "k < length ps" "ps ! k = p" by (auto simp: in_set_conv_nth)
      with r [rule_format, of 0 "Suc k"] \<open>P p\<close> show False by simp
    qed
    with d show "distinct (filter P (p # ps))" by auto
  qed
qed

section \<open>The pool invariant\<close>

lemma unique_pages_nth:
  "unique_pages fs \<longleftrightarrow>
     (\<forall>i < length fs. \<forall>j < length fs.
        pageId (fs ! i) = pageId (fs ! j) \<and> pageId (fs ! i) \<noteq> NO_PAGE \<longrightarrow> i = j)"
  unfolding unique_pages_def distinct_filter_nth by simp

lemma frame_ok_core: "frame_core f = frame_core g \<Longrightarrow> frame_ok f = frame_ok g"
  by (simp add: frame_core_def frame_ok_def)

lemma list_all_frame_ok_core:
  assumes "map frame_core fs = map frame_core gs"
  shows "list_all frame_ok fs = list_all frame_ok gs"
proof -
  have l: "length fs = length gs" using assms by (metis length_map)
  have "frame_ok (fs ! i) = frame_ok (gs ! i)" if "i < length gs" for i
    using nth_core [OF assms that] by (rule frame_ok_core)
  with l show ?thesis by (auto simp: list_all_length)
qed

lemma pageId_core: "pageId f = fst (frame_core f)"
  by (simp add: frame_core_def)

lemma unique_pages_core:
  assumes "map frame_core fs = map frame_core gs"
  shows "unique_pages fs = unique_pages gs"
proof -
  have "map pageId fs = map (fst \<circ> frame_core) fs" by (simp add: pageId_core)
  also have "\<dots> = map fst (map frame_core gs)" using assms by (simp add: map_map [symmetric] del: map_map)
  also have "\<dots> = map pageId gs" by (simp add: pageId_core)
  finally show ?thesis by (simp add: unique_pages_def)
qed

lemma ring_links_kept:
  assumes "links_kept md md1" "ring_ok md" "length (frames md) = capacity md"
  shows "ring_ok md1"
proof -
  have r: "ring md1 = ring md" using assms(1) by (simp add: ring_def links_kept_def)
  show ?thesis
    using assms unfolding ring_ok_def r links_kept_def by auto
qed

lemma lru_links_kept:
  assumes "links_kept md md1" "lru_list md xs"
  shows "lru_list md1 xs"
  using assms unfolding lru_list_def links_kept_def by auto

lemma same_pages_inv:
  assumes "pool_inv md" "links_kept md md1" "map pageId (frames md1) = map pageId (frames md)"
    "list_all frame_ok (frames md1)"
  shows "pool_inv md1"
proof -
  have u: "unique_pages (frames md1)" using assms(1,3) by (simp add: unique_pages_def pool_inv_def)
  have l: "length (frames md1) = capacity md1" using assms(1,2) by (simp add: pool_inv_def links_kept_def)
  have s: "strat md1 = strat md" using assms(2) by (simp add: links_kept_def)
  have "if strat md = RS_FIFO then ring_ok md1 else (\<exists>xs. lru_list md1 xs)"
  proof (cases "strat md = RS_FIFO")
    case True
    with assms(1) have "ring_ok md" "length (frames md) = capacity md"
      by (simp_all add: pool_inv_def)
    with ring_links_kept [OF assms(2)] True show ?thesis by simp
  next
    case False
    with assms(1) obtain xs where "lru_list md xs" by (auto simp: pool_inv_def)
    with lru_links_kept [OF assms(2)] False show ?thesis by auto
  qed
  with u l s assms(4) show ?thesis by (simp add: pool_inv_def)
qed

lemma touch_inv:
  assumes "pool_inv md" "i < length (frames md)" "frame_ok g"
    "pageId g = pageId (frames md ! i)" "prev g = prev (frames md ! i)"
    "next' g = next' (frames md ! i)"
  shows "pool_inv (md\<lparr>frames := (frames md)[i := g], fh := h, readIO := r, writeIO := wr\<rparr>)"
proof (rule same_pages_inv [OF assms(1)])
  let ?md1 = "md\<lparr>frames := (frames md)[i := g], fh := h, readIO := r, writeIO := wr\<rparr>"
  show "links_kept md ?md1"
    using assms by (auto simp: links_kept_def nth_list_update)
  show "map pageId (frames ?md1) = map pageId (frames md)"
    using assms by (simp add: map_update list_update_same_conv)
  show "list_all frame_ok (frames ?md1)"
    using assms by (auto simp: pool_inv_def list_all_length nth_list_update)
qed

lemma load_frames:
  fixes h r buf
  assumes inv: "pool_inv md" and slot: "slot < length (frames md)" and pid: "pid \<noteq> NO_PAGE"
    and miss: "\<forall>j < length (frames md). pageId (frames md ! j) \<noteq> pid"
    and md1: "md1 = md\<lparr>fh := h, readIO := r,
      frames := (frames md)[slot := (frames md ! slot)
         \<lparr>data := buf, pageId := pid, isDirty := False, pinCount := 1\<rparr>]\<rparr>"
  shows "links_kept md md1 \<and> list_all frame_ok (frames md1) \<and> unique_pages (frames md1) \<and>
         length (frames md1) = capacity md1"
proof -
  have a: "links_kept md md1"
    using slot pid by (auto simp: md1 links_kept_def nth_list_update)
  have b: "list_all frame_ok (frames md1)"
    using inv slot pid by (auto simp: md1 pool_inv_def list_all_length nth_list_update frame_ok_def)
  have c: "unique_pages (frames md1)"
    using inv slot miss unfolding unique_pages_nth md1 pool_inv_def
    by (auto simp: nth_list_update split: if_splits)
  have d: "length (frames md1) = capacity md1" using inv by (simp add: md1 pool_inv_def)
  from a b c d show ?thesis by simp
qed

lemma enqueueFIFO_other:
  "frames (enqueueFIFO md i) = frames md \<and> capacity (enqueueFIFO md i) = capacity md \<and>
   strat (enqueueFIFO md i) = strat md \<and> fh (enqueueFIFO md i) = fh md \<and>
   readIO (enqueueFIFO md i) = readIO md \<and> writeIO (enqueueFIFO md i) = writeIO md"
  by (simp add: enqueueFIFO_def Let_def)

lemma enqueue_inv:
  assumes "ring_ok md" "slot < capacity md" "slot \<notin> set (ring md)"
    "pageId (frames md ! slot) \<noteq> NO_PAGE"
  shows "ring_ok (enqueueFIFO md slot)"
proof -
  have room: "fifoCount md < capacity md" using ring_ok_room [OF assms(1,2,3)] .
  have len: "length (fifoQ md) = capacity md" using assms(1) by (simp add: ring_ok_def)
  have r: "ring (enqueueFIFO md slot) = ring md @ [slot]" using ring_enqueue [OF room len] .
  show ?thesis
    unfolding ring_ok_def r using assms
    by (auto simp: ring_ok_def enqueueFIFO_def Let_def)
qed

lemma pin_load_inv:
  assumes inv: "pool_inv md" and slot: "slot < capacity md" and pid: "0 \<le> pid"
    and miss: "\<forall>j < capacity md. pageId (frames md ! j) \<noteq> pid"
    and fifo: "strat md = RS_FIFO \<Longrightarrow> slot \<notin> set (ring md)"
    and load: "pin_load md slot pid w = (md2, ph2, w2, io)"
  shows "pool_inv md2 \<and> strat md2 = strat md \<and> capacity md2 = capacity md \<and>
         (\<exists>buf. map frame_core (frames md2) =
                  (map frame_core (frames md))[slot := (pid, buf, False, 1)])"
proof -
  have len: "length (frames md) = capacity md" using inv by (simp add: pool_inv_def)
  have np: "pid \<noteq> NO_PAGE" using pid by (simp add: NO_PAGE_def)
  from load obtain h buf where
    md2: "md2 = (let md1 = md\<lparr>fh := h, readIO := readIO md + 1,
                     frames := (frames md)[slot := (frames md ! slot)
                        \<lparr>data := buf, pageId := pid, isDirty := False, pinCount := 1\<rparr>]\<rparr>
                 in if strat md1 = RS_FIFO then enqueueFIFO md1 slot
                    else moveToLRUHead md1 (Some slot))"
    by (auto simp: pin_load_def Let_def split: prod.splits if_splits)
  let ?md1 = "md\<lparr>fh := h, readIO := readIO md + 1,
                     frames := (frames md)[slot := (frames md ! slot)
                        \<lparr>data := buf, pageId := pid, isDirty := False, pinCount := 1\<rparr>]\<rparr>"
  from load_frames [OF inv _ np _ refl, where slot = slot and h = h and r = "readIO md + 1" and buf = buf] slot miss len
  have lk: "links_kept md ?md1" and ok: "list_all frame_ok (frames ?md1)"
    and un: "unique_pages (frames ?md1)" and l1: "length (frames ?md1) = capacity ?md1"
    by auto
  have core1: "map frame_core (frames ?md1) = (map frame_core (frames md))[slot := (pid, buf, False, 1)]"
    by (simp add: map_update frame_core_def)
  show ?thesis
  proof (cases "strat md = RS_FIFO")
    case True
    then have e: "md2 = enqueueFIFO ?md1 slot" using md2 by simp
    have r0: "ring_ok md" using inv True by (simp add: pool_inv_def)
    have r1: "ring_ok ?md1" using ring_links_kept [OF lk r0 len] .
    have "ring ?md1 = ring md" by (simp add: ring_def)
    with fifo [OF True] have nin: "slot \<notin> set (ring ?md1)" by simp
    have res: "pageId (frames ?md1 ! slot) \<noteq> NO_PAGE" using slot len np by simp
    have "ring_ok (enqueueFIFO ?md1 slot)"
      using enqueue_inv [OF r1 _ nin res] slot by simp
    with True ok un l1 core1 show ?thesis
      unfolding e pool_inv_def by (simp add: enqueueFIFO_other) (rule exI [of _ buf], rule refl)
  next
    case False
    then have e: "md2 = moveToLRUHead ?md1 (Some slot)" using md2 by simp
    from inv False obtain xs where "lru_list md xs" by (auto simp: pool_inv_def)
    then have "lru_list ?md1 xs" using lru_links_kept [OF lk] by simp
    then have "lru_list md2 (slot # remove1 slot xs)"
      unfolding e using slot len by (intro moveToLRUHead_lru_list) simp_all
    moreover have c: "map frame_core (frames md2) = map frame_core (frames ?md1)"
      unfolding e by (rule moveToLRUHead_core)
    moreover have "list_all frame_ok (frames md2)"
      using list_all_frame_ok_core [OF c] ok by simp
    moreover have "unique_pages (frames md2)"
      using unique_pages_core [OF c] un by simp
    ultimately show ?thesis
      using False l1 core1 unfolding e
      by (auto simp: pool_inv_def moveToLRUHead_other)
  qed
qed

lemma lru_list_io [simp]: "lru_list (md\<lparr>fh := h, writeIO := x\<rparr>) = lru_list md"
  by (rule ext) (simp add: lru_list_def)

lemma ring_ok_io [simp]: "ring_ok (md\<lparr>fh := h, writeIO := x\<rparr>) = ring_ok md"
  by (simp add: ring_ok_def ring_def)

lemma pool_inv_io [simp]: "pool_inv (md\<lparr>fh := h, writeIO := x\<rparr>) = pool_inv md"
  by (simp add: pool_inv_def)

lemma ring_io [simp]: "ring (md\<lparr>fh := h, writeIO := x\<rparr>) = ring md"
  by (simp add: ring_def)

lemma moveToLRUHead_inv:
  assumes "pool_inv md" "strat md \<noteq> RS_FIFO" "f < capacity md"
  shows "pool_inv (moveToLRUHead md (Some f))"
proof -
  from assms obtain xs where xs: "lru_list md xs" and len: "length (frames md) = capacity md"
    by (auto simp: pool_inv_def)
  have l: "lru_list (moveToLRUHead md (Some f)) (f # remove1 f xs)"
    using moveToLRUHead_lru_list [OF xs] assms(3) len by simp
  have c: "map frame_core (frames (moveToLRUHead md (Some f))) = map frame_core (frames md)"
    by (rule moveToLRUHead_core)
  show ?thesis
    using assms l len list_all_frame_ok_core [OF c] unique_pages_core [OF c]
    by (auto simp: pool_inv_def moveToLRUHead_other)
qed

lemma selectVictim_inv:
  assumes inv: "pool_inv md"
  shows "\<exists>v m. selectVictim md = Some (v, m) \<and> pool_inv m \<and> frames m = frames md \<and>
          strat m = strat md \<and> capacity m = capacity md \<and>
          (\<forall>slot. v = Some slot \<longrightarrow> slot < capacity md \<and> pinCount (frames md ! slot) \<le> 0 \<and>
              (strat md = RS_FIFO \<longrightarrow>
                 pinCount (frames md ! slot) = 0 \<and> slot \<notin> set (ring m)))"
proof -
  have len: "length (frames md) = capacity md" using inv by (simp add: pool_inv_def)
  show ?thesis
  proof (cases "strat md = RS_FIFO")
    case True
    let ?r = "fifo_scan md (fifoCount md)"
    have ro: "ring_ok md" using inv True by (simp add: pool_inv_def)
    from fifo_scan_fields [of md "fifoCount md"] obtain h c
      where m: "snd ?r = md\<lparr>fifoHead := h, fifoCount := c\<rparr>" by blast
    from fifo_scan_ring [OF ro le_refl]
    have r1: "ring_ok (snd ?r)"
      and v: "\<forall>idx. fst ?r = Some idx \<longrightarrow> idx \<in> set (ring md) \<and> idx \<notin> set (ring (snd ?r)) \<and>
            pinCount (frames md ! idx) = 0"
      by auto
    have valid: "\<forall>x \<in> set (ring md). x < capacity md" using ro by (simp add: ring_ok_def)
    have fr: "frames (snd ?r) = frames md \<and> strat (snd ?r) = strat md \<and> capacity (snd ?r) = capacity md"
      by (simp add: m)
    have "pool_inv (snd ?r)"
      using inv True r1 fr by (simp add: pool_inv_def)
    moreover have "selectVictim md = Some (fst ?r, snd ?r)"
      using True by (simp add: selectVictim_def)
    ultimately show ?thesis using fr v valid
      by (intro exI [of _ "fst ?r"] exI [of _ "snd ?r"]) auto
  next
    case False
    with inv obtain xs where xs: "lru_list md xs" by (auto simp: pool_inv_def)
    from lru_scan_terminates [OF xs] obtain v where
      s: "lru_scan (frames md) (lruTail md) = Some v"
      and p: "\<forall>i. v = Some i \<longrightarrow> i \<in> set xs \<and> pinCount (frames md ! i) \<le> 0"
      by blast
    have "slot < capacity md \<and> pinCount (frames md ! slot) \<le> 0" if "v = Some slot" for slot
    proof -
      from p that have a: "slot \<in> set xs" and b: "pinCount (frames md ! slot) \<le> 0" by auto
      from a xs len have c: "slot < capacity md" by (auto simp: lru_list_def)
      with b show ?thesis by simp
    qed
    moreover have "selectVictim md = Some (v, md)" using False s by (simp add: selectVictim_def)
    ultimately show ?thesis using inv False by auto
  qed
qed

lemma pin_victim_inv:
  assumes inv: "pool_inv md"
  shows "\<exists>r. pin_victim md w = Some r \<and>
     (case r of
        Inl md1 \<Rightarrow> pool_inv md1 \<and> frames md1 = frames md \<and> strat md1 = strat md \<and>
                   capacity md1 = capacity md
      | Inr (slot, md1, w1, io) \<Rightarrow>
          pool_inv md1 \<and> frames md1 = frames md \<and> strat md1 = strat md \<and>
          capacity md1 = capacity md \<and> slot < capacity md \<and>
          pinCount (frames md ! slot) \<le> 0 \<and>
          (strat md = RS_FIFO \<longrightarrow> slot \<notin> set (ring md1)))"
proof -
  from selectVictim_inv [OF inv] obtain v m where sv: "selectVictim md = Some (v, m)" and im: "pool_inv m"
    and fm: "frames m = frames md" "strat m = strat md" "capacity m = capacity md"
    and vs: "\<forall>slot. v = Some slot \<longrightarrow> slot < capacity md \<and> pinCount (frames md ! slot) \<le> 0 \<and>
              (strat md = RS_FIFO \<longrightarrow> slot \<notin> set (ring m))"
    by blast
  show ?thesis
  proof (cases v)
    case None
    with sv im fm show ?thesis by (simp add: pin_victim_def)
  next
    case (Some slot)
    with sv im fm vs show ?thesis
      by (auto simp: pin_victim_def split: prod.splits)
  qed
qed

lemma keeps_pinned_core:
  assumes "map frame_core (frames md1) = (map frame_core (frames md))[slot := c]"
    "pinCount (frames md ! slot) \<le> 0 \<or> fst c = pageId (frames md ! slot) \<and> fst (snd c) = data (frames md ! slot)"
    "capacity md1 = capacity md" "strat md1 = strat md"
  shows "keeps_pinned md md1"
proof -
  have len: "length (frames md1) = length (frames md)"
    using assms(1) by (metis length_list_update length_map)
  have "pageId (frames md1 ! i) = pageId (frames md ! i) \<and> data (frames md1 ! i) = data (frames md ! i)"
    if i: "i < length (frames md)" and p: "0 < pinCount (frames md ! i)" for i
  proof -
    have "frame_core (frames md1 ! i) = (map frame_core (frames md1)) ! i"
      using i len by simp
    also have "\<dots> = (if i = slot then c else frame_core (frames md ! i))"
      using i by (simp add: assms(1) nth_list_update)
    finally show ?thesis using assms(2) p
      by (cases c) (auto simp: frame_core_def split: if_splits)
  qed
  with len assms(3,4) show ?thesis by (simp add: keeps_pinned_def)
qed

lemma pinPage_io_inv:
  assumes m: "mgmtData bm = Some md" and inv: "pool_inv md" and pid: "0 \<le> pid"
  shows "\<exists>rc md1 ph1 w1 io.
           pinPage_io bm ph pid w = Some ((rc, bm\<lparr>mgmtData := Some md1\<rparr>, ph1, w1), io) \<and>
           pool_inv md1 \<and> keeps_pinned md md1"
proof -
  have len: "length (frames md) = capacity md" using inv by (simp add: pool_inv_def)
  have oks: "\<And>i. i < capacity md \<Longrightarrow> frame_ok (frames md ! i)"
    using inv len by (simp add: pool_inv_def list_all_length)
  have np: "pid \<noteq> NO_PAGE" using pid by (simp add: NO_PAGE_def)
  show ?thesis
  proof (cases "pin_scan (frames md) (capacity md) pid 0 None")
    case (Inl i)
    from pin_scan_Inl [OF Inl] have i: "i < capacity md" and pg: "pageId (frames md ! i) = pid" by auto
    let ?g = "(frames md ! i)\<lparr>pinCount := int32 (pinCount (frames md ! i) + 1)\<rparr>"
    let ?md1 = "md\<lparr>frames := (frames md)[i := ?g]\<rparr>"
    let ?md2 = "if strat ?md1 = RS_LRU \<or> strat ?md1 = RS_LRU_K then moveToLRUHead ?md1 (Some i) else ?md1"
    have g: "frame_ok ?g" using oks [OF i] pg np by (simp add: frame_ok_def)
    have "pool_inv (md\<lparr>frames := (frames md)[i := ?g], fh := fh md, readIO := readIO md, writeIO := writeIO md\<rparr>)"
      using i len g by (intro touch_inv [OF inv]) simp_all
    then have i1: "pool_inv ?md1" by simp
    have c1: "map frame_core (frames ?md1) = (map frame_core (frames md))[i := frame_core ?g]"
      by (simp add: map_update)
    have i2: "pool_inv ?md2"
      using i1 i by (auto intro: moveToLRUHead_inv)
    have c2: "map frame_core (frames ?md2) = (map frame_core (frames md))[i := frame_core ?g]"
      using c1 by (simp add: moveToLRUHead_core)
    have k: "keeps_pinned md ?md2"
      by (rule keeps_pinned_core [OF c2]) (simp_all add: frame_core_def moveToLRUHead_other)
    have "pinPage_io bm ph pid w =
        Some ((RC_OK, bm\<lparr>mgmtData := Some ?md2\<rparr>, \<lparr>pageNum = pid, pdata = Some i\<rparr>, w), [])"
      using m pid Inl by (simp add: pinPage_io_def Let_def)
    with i2 k show ?thesis by blast
  next
    case (Inr fr)
    have miss: "\<forall>j < capacity md. pageId (frames md ! j) \<noteq> pid"
      using pin_scan_Inr [OF Inr] by simp
    show ?thesis
    proof (cases fr)
      case (Some free)
      with pin_scan_free [OF Inr] have f: "free < capacity md" and e: "pageId (frames md ! free) = NO_PAGE"
        by auto
      have z: "pinCount (frames md ! free) = 0" using oks [OF f] e by (simp add: frame_ok_def)
      have nr: "strat md = RS_FIFO \<Longrightarrow> free \<notin> set (ring md)"
        using inv e by (auto simp: pool_inv_def ring_ok_def)
      obtain md2 ph2 w2 io where l: "pin_load md free pid w = (md2, ph2, w2, io)"
        by (cases "pin_load md free pid w") auto
      from pin_load_inv [OF inv f pid miss nr l] obtain buf where
        i2: "pool_inv md2" and s2: "strat md2 = strat md" "capacity md2 = capacity md"
        and c2: "map frame_core (frames md2) = (map frame_core (frames md))[free := (pid, buf, False, 1)]"
        by auto
      have k: "keeps_pinned md md2"
        by (rule keeps_pinned_core [OF c2]) (simp_all add: z s2)
      have "pinPage_io bm ph pid w = Some ((RC_OK, bm\<lparr>mgmtData := Some md2\<rparr>, ph2, w2), io)"
        using m pid Inr Some l by (simp add: pinPage_io_def)
      with i2 k show ?thesis by blast
    next
      case None
      from pin_victim_inv [OF inv, of w] obtain r where pv: "pin_victim md w = Some r"
        and pr: "case r of
            Inl md1 \<Rightarrow> pool_inv md1 \<and> frames md1 = frames md \<and> strat md1 = strat md \<and>
                   capacity md1 = capacity md
          | Inr (slot, md1, w1, io) \<Rightarrow>
              pool_inv md1 \<and> frames md1 = frames md \<and> strat md1 = strat md \<and>
              capacity md1 = capacity md \<and> slot < capacity md \<and>
              pinCount (frames md ! slot) \<le> 0 \<and>
              (strat md = RS_FIFO \<longrightarrow> slot \<notin> set (ring md1))"
        by blast
      show ?thesis
      proof (cases r)
        case (Inl md1)
        with pr have i1: "pool_inv md1" and f1: "frames md1 = frames md"
          and s1: "strat md1 = strat md" "capacity md1 = capacity md" by auto
        have k: "keeps_pinned md md1" using f1 s1 by (simp add: keeps_pinned_def)
        have "pinPage_io bm ph pid w =
            Some ((RC_READ_NON_EXISTING_PAGE, bm\<lparr>mgmtData := Some md1\<rparr>, ph, w), [])"
          using m pid \<open>pin_scan (frames md) (capacity md) pid 0 None = Inr fr\<close> None pv Inl
          by (simp add: pinPage_io_def)
        with i1 k show ?thesis by blast
      next
        case (Inr t)
        then obtain slot md1 w1 io1 where t: "r = Inr (slot, md1, w1, io1)" by (cases t) auto
        with pr have i1: "pool_inv md1" and f1: "frames md1 = frames md"
          and s1: "strat md1 = strat md" "capacity md1 = capacity md"
          and sl: "slot < capacity md" and z: "pinCount (frames md ! slot) \<le> 0"
          and nr: "strat md = RS_FIFO \<longrightarrow> slot \<notin> set (ring md1)" by auto
        obtain md2 ph2 w2 io2 where l: "pin_load md1 slot pid w1 = (md2, ph2, w2, io2)"
          by (cases "pin_load md1 slot pid w1") auto
        have miss1: "\<forall>j < capacity md1. pageId (frames md1 ! j) \<noteq> pid" using miss f1 s1 by simp
        have sl1: "slot < capacity md1" using sl s1 by simp
        have nr1: "strat md1 = RS_FIFO \<Longrightarrow> slot \<notin> set (ring md1)" using nr s1 by simp
        from pin_load_inv [OF i1 sl1 pid miss1 nr1 l] obtain buf where
          i2: "pool_inv md2" and s2: "strat md2 = strat md1" "capacity md2 = capacity md1"
          and c2: "map frame_core (frames md2) = (map frame_core (frames md1))[slot := (pid, buf, False, 1)]"
          by auto
        have k: "keeps_pinned md md2"
          by (rule keeps_pinned_core [of md2 md slot "(pid, buf, False, 1)"])
            (simp_all add: c2 f1 z s2 s1)
        have "pinPage_io bm ph pid w = Some ((RC_OK, bm\<lparr>mgmtData := Some md2\<rparr>, ph2, w2), io1 @ io2)"
          using m pid \<open>pin_scan (frames md) (capacity md) pid 0 None = Inr fr\<close> None pv t l
          by (simp add: pinPage_io_def)
        with i2 k show ?thesis by blast
      qed
    qed
  qed
qed

lemma keeps_pinned_pages: "keeps_pinned md md1 \<Longrightarrow> keeps_pages md md1"
  by (simp add: keeps_pinned_def keeps_pages_def)

lemma keeps_pinned_refl: "keeps_pinned md md"
  by (simp add: keeps_pinned_def)

lemma find_page_Some:
  "find_page fs cap p i = Some k \<Longrightarrow> i \<le> k \<and> k < cap \<and> pageId (fs ! k) = p"
proof (induction fs cap p i rule: find_page.induct)
  case (1 fs cap p i)
  then show ?case
    by (subst (asm) (2) find_page.simps) (auto split: if_splits)
qed

lemma touch_step:
  assumes inv: "pool_inv md" and i: "i < capacity md" and g: "frame_ok g"
    and same: "pageId g = pageId (frames md ! i)" "prev g = prev (frames md ! i)"
      "next' g = next' (frames md ! i)"
    and md1: "md1 = md\<lparr>frames := (frames md)[i := g], fh := h, readIO := r, writeIO := wr\<rparr>"
  shows "pool_inv md1 \<and> keeps_pages md md1 \<and> (data g = data (frames md ! i) \<longrightarrow> keeps_pinned md md1)"
proof -
  have len: "length (frames md) = capacity md" using inv by (simp add: pool_inv_def)
  have "pool_inv md1" unfolding md1 using i len g same by (intro touch_inv [OF inv]) simp_all
  moreover have "keeps_pages md md1"
    using same by (auto simp: md1 keeps_pages_def nth_list_update_any)
  moreover have "data g = data (frames md ! i) \<longrightarrow> keeps_pinned md md1"
    using same by (auto simp: md1 keeps_pinned_def nth_list_update_any)
  ultimately show ?thesis by simp
qed

lemma record_same: "md\<lparr>frames := fs, fh := fh md, readIO := readIO md, writeIO := writeIO md\<rparr> = md\<lparr>frames := fs\<rparr>"
  by simp

lemma unpin_step:
  assumes m: "mgmtData bm = Some md" and inv: "pool_inv md"
  shows "\<exists>rc bm1. unpinPage bm ph = (rc, bm1) \<and> pool_ok bm1 \<and> step_safe (Unpin p) bm bm1"
proof (cases "find_page (frames md) (capacity md) (pageNum ph) 0")
  case None
  with m inv show ?thesis
    by (simp add: unpinPage_def pool_ok_def step_safe_def keeps_pinned_refl keeps_pinned_pages)
next
  case (Some i)
  from find_page_Some [OF Some] have i: "i < capacity md" by simp
  have len: "length (frames md) = capacity md" using inv by (simp add: pool_inv_def)
  show ?thesis
  proof (cases "0 < pinCount (frames md ! i)")
    case False
    with Some m inv show ?thesis
      by (simp add: unpinPage_def pool_ok_def step_safe_def keeps_pinned_refl keeps_pinned_pages)
  next
    case True
    let ?g = "(frames md ! i)\<lparr>pinCount := pinCount (frames md ! i) - 1\<rparr>"
    have ok: "frame_ok (frames md ! i)" using inv i len by (simp add: pool_inv_def list_all_length)
    have g: "frame_ok ?g" using ok True by (auto simp: frame_ok_def)
    from touch_step [OF inv i g _ _ _ refl, where h = "fh md" and r = "readIO md" and wr = "writeIO md"]
    have "pool_inv (md\<lparr>frames := (frames md)[i := ?g]\<rparr>) \<and>
          keeps_pinned md (md\<lparr>frames := (frames md)[i := ?g]\<rparr>)"
      by (simp add: record_same)
    with Some True m show ?thesis
      by (simp add: unpinPage_def pool_ok_def step_safe_def keeps_pinned_pages)
  qed
qed

lemma markDirty_step:
  assumes m: "mgmtData bm = Some md" and inv: "pool_inv md"
  shows "\<exists>rc bm1. markDirty bm ph = (rc, bm1) \<and> pool_ok bm1 \<and> step_safe (MarkDirty p) bm bm1"
proof (cases "find_page (frames md) (capacity md) (pageNum ph) 0")
  case None
  with m inv show ?thesis
    by (simp add: markDirty_def pool_ok_def step_safe_def keeps_pinned_refl keeps_pinned_pages)
next
  case (Some i)
  from find_page_Some [OF Some] have i: "i < capacity md" by simp
  have len: "length (frames md) = capacity md" using inv by (simp add: pool_inv_def)
  let ?g = "(frames md ! i)\<lparr>isDirty := True\<rparr>"
  have ok: "frame_ok (frames md ! i)" using inv i len by (simp add: pool_inv_def list_all_length)
  have g: "frame_ok ?g" using ok by (auto simp: frame_ok_def)
  from touch_step [OF inv i g _ _ _ refl, where h = "fh md" and r = "readIO md" and wr = "writeIO md"]
  have "pool_inv (md\<lparr>frames := (frames md)[i := ?g]\<rparr>) \<and>
        keeps_pinned md (md\<lparr>frames := (frames md)[i := ?g]\<rparr>)"
    by (simp add: record_same)
  with Some m show ?thesis
    by (simp add: markDirty_def pool_ok_def step_safe_def keeps_pinned_pages)
qed

lemma forcePage_step:
  assumes m: "mgmtData bm = Some md" and inv: "pool_inv md"
  shows "\<exists>rc bm1 w1. forcePage bm ph w = (rc, bm1, w1) \<and> pool_ok bm1 \<and> step_safe (ForcePage p) bm bm1"
proof (cases "find_page (frames md) (capacity md) (pageNum ph) 0")
  case None
  with m inv show ?thesis
    by (simp add: forcePage_def pool_ok_def step_safe_def keeps_pinned_refl keeps_pinned_pages)
next
  case (Some i)
  from find_page_Some [OF Some] have i: "i < capacity md" by simp
  have len: "length (frames md) = capacity md" using inv by (simp add: pool_inv_def)
  let ?g = "(frames md ! i)\<lparr>isDirty := False\<rparr>"
  obtain rc h1 w1 where wb: "writeBlock (pageNum ph) (fh md) (data (frames md ! i)) w = (rc, h1, w1)"
    by (cases "writeBlock (pageNum ph) (fh md) (data (frames md ! i)) w") auto
  have ok: "frame_ok (frames md ! i)" using inv i len by (simp add: pool_inv_def list_all_length)
  have g: "frame_ok ?g" using ok by (auto simp: frame_ok_def)
  let ?md1 = "md\<lparr>fh := h1, writeIO := writeIO md + 1, frames := (frames md)[i := ?g]\<rparr>"
  have e: "?md1 = md\<lparr>frames := (frames md)[i := ?g], fh := h1, readIO := readIO md, writeIO := writeIO md + 1\<rparr>"
    by simp
  from touch_step [OF inv i g _ _ _ e]
  have "pool_inv ?md1 \<and> keeps_pinned md ?md1" by simp
  with Some m wb show ?thesis
    by (simp add: forcePage_def pool_ok_def step_safe_def keeps_pinned_pages)
qed

lemma client_write_step:
  assumes m: "mgmtData bm = Some md" and inv: "pool_inv md"
  shows "pool_ok (client_write bm i bs) \<and> step_safe (ClientWrite i bs) bm (client_write bm i bs)"
proof (cases "i < length (frames md) \<and> length bs = PAGE_SIZE")
  case False
  with m inv show ?thesis
    by (auto simp: client_write_def pool_ok_def step_safe_def keeps_pinned_refl keeps_pinned_pages)
next
  case True
  have len: "length (frames md) = capacity md" using inv by (simp add: pool_inv_def)
  let ?g = "(frames md ! i)\<lparr>data := bs\<rparr>"
  have i: "i < capacity md" using True len by simp
  have ok: "frame_ok (frames md ! i)" using inv i len by (simp add: pool_inv_def list_all_length)
  have g: "frame_ok ?g" using ok by (auto simp: frame_ok_def)
  from touch_step [OF inv i g _ _ _ refl, where h = "fh md" and r = "readIO md" and wr = "writeIO md"]
  have "pool_inv (md\<lparr>frames := (frames md)[i := ?g]\<rparr>) \<and>
        keeps_pages md (md\<lparr>frames := (frames md)[i := ?g]\<rparr>)"
    by (simp add: record_same)
  with True m show ?thesis
    by (simp add: client_write_def pool_ok_def step_safe_def)
qed

lemma flushed_same:
  "pageId (flushed f) = pageId f \<and> data (flushed f) = data f \<and> pinCount (flushed f) = pinCount f \<and>
   prev (flushed f) = prev f \<and> next' (flushed f) = next' f \<and> frame_ok (flushed f) = frame_ok f"
  by (simp add: flushed_def frame_ok_def)

lemma forceFlush_step:
  assumes m: "mgmtData bm = Some md" and inv: "pool_inv md"
  shows "\<exists>rc bm1 w1. forceFlushPool bm w = (rc, bm1, w1) \<and> pool_ok bm1 \<and> step_safe ForceFlush bm bm1"
proof -
  have len: "length (frames md) = capacity md" using inv by (simp add: pool_inv_def)
  let ?F = "fold write_through (flush_writes (frames md) (capacity md)) (fh md, w)"
  let ?md1 = "md\<lparr>fh := fst ?F,
               writeIO := writeIO md + of_nat (length (flush_writes (frames md) (capacity md))),
               frames := map flushed (frames md)\<rparr>"
  have run: "forceFlushPool bm w = (RC_OK, bm\<lparr>mgmtData := Some ?md1\<rparr>, snd ?F)"
    using m len flush_loop_state [of "capacity md" md w] by (simp add: forceFlushPool_def)
  have lk: "links_kept md ?md1" by (simp add: links_kept_def flushed_same)
  have pg: "map pageId (frames ?md1) = map pageId (frames md)" by (simp add: flushed_same)
  have ok: "list_all frame_ok (frames ?md1)"
    using inv by (simp add: pool_inv_def list_all_length flushed_same)
  have i1: "pool_inv ?md1" using same_pages_inv [OF inv lk pg ok] .
  have k: "keeps_pinned md ?md1" by (simp add: keeps_pinned_def flushed_same)
  from run i1 k m show ?thesis
    by (simp add: pool_ok_def step_safe_def keeps_pinned_pages)
qed

lemma pool_step_ok:
  assumes "pool_ok bm"
  shows "\<exists>rc bm1 w1. pool_step x (bm, w) = Some (rc, bm1, w1) \<and> pool_ok bm1 \<and> step_safe x bm bm1"
proof (cases "mgmtData bm")
  case None
  then show ?thesis
    by (cases x)
      (simp_all add: pinPage_def pinPage_io_def unpinPage_def markDirty_def forcePage_def
        forceFlushPool_def shutdownBufferPool_def client_write_def pool_ok_def step_safe_def)
next
  case (Some md)
  with assms have inv: "pool_inv md" by (simp add: pool_ok_def)
  show ?thesis
  proof (cases x)
    case (Pin p)
    show ?thesis
    proof (cases "p < 0")
      case True
      with Some inv Pin show ?thesis
        by (simp add: pinPage_def pinPage_io_def pool_ok_def step_safe_def keeps_pinned_refl
            keeps_pinned_pages)
    next
      case False
      then have "0 \<le> p" by simp
      from pinPage_io_inv [OF Some inv this, of "handle_for p" w] Some Pin show ?thesis
        by (auto simp: pinPage_def pool_ok_def step_safe_def keeps_pinned_pages)
    qed
  next
    case (Unpin p)
    with unpin_step [OF Some inv, of "handle_for p" p] show ?thesis by auto
  next
    case (MarkDirty p)
    with markDirty_step [OF Some inv, of "handle_for p" p] show ?thesis by auto
  next
    case (ForcePage p)
    with forcePage_step [OF Some inv, of "handle_for p" w p] show ?thesis by auto
  next
    case ForceFlush
    with forceFlush_step [OF Some inv, of w] show ?thesis by auto
  next
    case Shutdown
    with Some show ?thesis
      by (simp add: shutdownBufferPool_def pool_ok_def step_safe_def split: prod.splits)
  next
    case (ClientWrite i bs)
    with client_write_step [OF Some inv, of i bs] show ?thesis by simp
  qed
qed

lemma run_ok:
  assumes "pool_ok bm"
  shows "\<exists>rcs bm1 w1. run ops (bm, w) = Some (rcs, bm1, w1) \<and> pool_ok bm1 \<and> length rcs = length ops"
  using assms
proof (induction ops arbitrary: bm w)
  case Nil
  then show ?case by simp
next
  case (Cons x xs)
  from pool_step_ok [OF Cons.prems, of x w] obtain rc bm1 w1 where
    s: "pool_step x (bm, w) = Some (rc, bm1, w1)" and ok: "pool_ok bm1" by blast
  from Cons.IH [OF ok, of w1] obtain rcs bm2 w2 where
    "run xs (bm1, w1) = Some (rcs, bm2, w2)" "pool_ok bm2" "length rcs = length xs" by blast
  with s show ?case by simp
qed

lemma init_ok:
  assumes "initBufferPool bm0 name n st w = Return (RC_OK, bm)"
  shows "pool_ok bm \<and> strategy bm = st \<and> (\<exists>md. mgmtData bm = Some md \<and> strat md = st \<and> capacity md = n)"
proof -
  from assms obtain h where
    bm: "bm = \<lparr>pageFile = Some name, numPages = n, strategy = st,
              mgmtData = Some
                \<lparr>fh = h,
                 frames = map
                   (\<lambda>i. \<lparr>pageId = NO_PAGE, data = c_malloc i PAGE_SIZE w, isDirty = False,
                         pinCount = 0, prev = None, next' = None\<rparr>) [0 ..< n],
                 capacity = n, strat = st, readIO = 0, writeIO = 0,
                 fifoQ = replicate n 0, fifoHead = 0, fifoCount = 0,
                 lruHead = None, lruTail = None\<rparr>\<rparr>"
    by (auto simp: initBufferPool_def split: prod.splits if_splits option.splits)
  have "lru_list (the (mgmtData bm)) []" by (simp add: bm lru_list_def)
  then have "\<exists>xs. lru_list (the (mgmtData bm)) xs" by blast
  moreover have "ring_ok (the (mgmtData bm))" by (auto simp: bm ring_ok_def ring_def)
  moreover have "list_all frame_ok (frames (the (mgmtData bm)))"
    by (simp add: bm frame_ok_def list_all_length)
  moreover have "unique_pages (frames (the (mgmtData bm)))"
    by (simp add: bm unique_pages_def)
  ultimately have "pool_inv (the (mgmtData bm))"
    by (auto simp: pool_inv_def bm)
  then show ?thesis by (simp add: pool_ok_def bm)
qed

lemma selectVictim_unpinned:
  assumes inv: "pool_inv md"
  shows "\<exists>v md1. selectVictim md = Some (v, md1) \<and>
           (\<forall>slot. v = Some slot \<longrightarrow>
              slot < capacity md \<and> pinCount (frames md ! slot) \<le> 0 \<and>
              (strat md = RS_FIFO \<longrightarrow> pinCount (frames md ! slot) = 0))"
  using selectVictim_inv [OF inv] by blast

lemma pin_hit:
  assumes m: "mgmtData bm = Some md" and inv: "pool_inv md" and i: "i < capacity md"
    and pid: "0 \<le> pid" and pg: "pageId (frames md ! i) = pid"
  shows "\<exists>md2. pinPage_io bm ph pid w =
           Some ((RC_OK, bm\<lparr>mgmtData := Some md2\<rparr>, \<lparr>pageNum = pid, pdata = Some i\<rparr>, w), []) \<and>
         map frame_core (frames md2) =
           (map frame_core (frames md))[i := (pid, data (frames md ! i), isDirty (frames md ! i),
              int32 (pinCount (frames md ! i) + 1))] \<and>
         readIO md2 = readIO md \<and> writeIO md2 = writeIO md \<and> fh md2 = fh md"
proof -
  have len: "length (frames md) = capacity md" and un: "unique_pages (frames md)"
    using inv by (simp_all add: pool_inv_def)
  have np: "pid \<noteq> NO_PAGE" using pid by (simp add: NO_PAGE_def)
  obtain k where k: "pin_scan (frames md) (capacity md) pid 0 None = Inl k"
  proof (cases "pin_scan (frames md) (capacity md) pid 0 None")
    case (Inl k)
    then show ?thesis using that by blast
  next
    case (Inr r)
    from pin_scan_Inr [OF Inr, of i] i pg show ?thesis by simp
  qed
  from pin_scan_Inl [OF k] have "k < capacity md" "pageId (frames md ! k) = pid" by auto
  with un i pg np len have ki: "k = i"
    unfolding unique_pages_nth by auto
  let ?md1 = "md\<lparr>frames := (frames md)[i := (frames md ! i)\<lparr>pinCount := int32 (pinCount (frames md ! i) + 1)\<rparr>]\<rparr>"
  let ?md2 = "if strat ?md1 = RS_LRU \<or> strat ?md1 = RS_LRU_K then moveToLRUHead ?md1 (Some i) else ?md1"
  have "pinPage_io bm ph pid w =
      Some ((RC_OK, bm\<lparr>mgmtData := Some ?md2\<rparr>, \<lparr>pageNum = pid, pdata = Some i\<rparr>, w), [])"
    using m pid k ki by (simp add: pinPage_io_def Let_def)
  moreover have "map frame_core (frames ?md2) =
      (map frame_core (frames md))[i := (pid, data (frames md ! i), isDirty (frames md ! i),
              int32 (pinCount (frames md ! i) + 1))]"
    using pg by (simp add: moveToLRUHead_core map_update frame_core_def)
  moreover have "readIO ?md2 = readIO md \<and> writeIO ?md2 = writeIO md \<and> fh ?md2 = fh md"
    by (simp add: moveToLRUHead_other)
  ultimately show ?thesis by blast
qed

lemma lru_pool_init_eval:
  "initBufferPool blank_pool ''db'' 2 RS_LRU (disk_pages 4 4) =
     Return (RC_OK, fresh_pool 2 RS_LRU (disk_pages 4 4))"
  by (simp add: init_eval PAGE_SIZE_pos)

lemma lru_pool_run_eval:
  "map_option (\<lambda>(rcs, bm, w). map_option (\<lambda>md. (capacity md, getFixCounts md)) (mgmtData bm))
     (run [Pin 0, Pin 1, Unpin 0] (fresh_pool 2 RS_LRU (disk_pages 4 4), disk_pages 4 4)) =
   Some (Some (2, [0, 1]))"
  by (simp add: init_eval pool_eval PAGE_SIZE_pos getFixCounts_def)

lemma fifo_pool_init_eval:
  "initBufferPool blank_pool ''db'' 2 RS_FIFO (disk_pages 4 4) =
     Return (RC_OK, fresh_pool 2 RS_FIFO (disk_pages 4 4))"
  by (simp add: init_eval PAGE_SIZE_pos)

lemma fifo_pool_run_eval:
  "map_option (\<lambda>(rcs, bm, w). map_option (\<lambda>md. (capacity md, getFrameContents md)) (mgmtData bm))
     (run [Pin 3, Unpin 3] (fresh_pool 2 RS_FIFO (disk_pages 4 4), disk_pages 4 4)) =
   Some (Some (2, [3, - 1]))"
  by (simp add: init_eval pool_eval PAGE_SIZE_pos getFrameContents_def)


section \<open>Pin counts along a run\<close>

text \<open>
  A pin count changes in three places: a hit adds one (in \<^verbatim>\<open>int\<close>), a load
  sets it to 1, and \<^verbatim>\<open>unpinPage\<close> takes one off a positive count. So the pin
  counts of a pool stay between 0 and the number of pins made, as long as that
  number is below \<open>2^31\<close>.
\<close>

lemma pins_core:
  assumes "map frame_core fs = map frame_core gs"
  shows "map pinCount fs = map pinCount gs"
proof -
  have e: "map pinCount hs = map (snd \<circ> snd \<circ> snd) (map frame_core hs)" for hs
    by (simp add: frame_core_def comp_def)
  show ?thesis unfolding e [of fs] e [of gs] assms ..
qed

lemma map_pin_update:
  "pinCount g = pinCount (fs ! i) \<Longrightarrow> map pinCount (fs[i := g]) = map pinCount fs"
  by (cases "i < length fs") (simp_all add: map_update list_update_same_conv list_update_beyond)

lemma pin_load_pins:
  assumes "pin_load md slot pid w = (md2, ph2, w2, io)"
  shows "map pinCount (frames md2) = (map pinCount (frames md))[slot := 1]"
proof -
  from assms obtain h r buf where
    md2: "md2 = (let md1 = md\<lparr>fh := h, readIO := r,
                     frames := (frames md)[slot := (frames md ! slot)
                        \<lparr>data := buf, pageId := pid, isDirty := False, pinCount := 1\<rparr>]\<rparr>
                 in if strat md1 = RS_FIFO then enqueueFIFO md1 slot
                    else moveToLRUHead md1 (Some slot))"
    by (auto simp: pin_load_def Let_def split: prod.splits if_splits)
  show ?thesis
    unfolding md2 Let_def
    by (simp add: enqueueFIFO_other pins_core [OF moveToLRUHead_core] map_update)
qed

lemma pin_victim_frames:
  assumes "pin_victim md w = Some r"
  shows "case r of Inl md1 \<Rightarrow> frames md1 = frames md
         | Inr (slot, md1, w1, io) \<Rightarrow> frames md1 = frames md"
proof -
  from assms obtain v md0 where sv: "selectVictim md = Some (v, md0)"
    by (auto simp: pin_victim_def split: option.splits)
  from selectVictim_fields [OF sv] obtain h c where "md0 = md\<lparr>fifoHead := h, fifoCount := c\<rparr>"
    by blast
  with assms sv show ?thesis
    by (auto simp: pin_victim_def split: option.splits prod.splits if_splits)
qed

lemma pinPage_pins:
  assumes m: "mgmtData bm = Some md"
    and p: "pinPage_io bm ph pid w = Some ((rc, bm1, ph1, w1), io)"
  shows "\<exists>md1 i v. mgmtData bm1 = Some md1 \<and>
           map pinCount (frames md1) = (map pinCount (frames md))[i := v] \<and>
           (v = 1 \<or> v = int32 (pinCount (frames md ! i) + 1))"
proof -
  have same: "\<exists>i v. map pinCount (frames md) = (map pinCount (frames md))[i := v] \<and>
                (v = 1 \<or> v = int32 (pinCount (frames md ! i) + 1))"
    by (rule exI [of _ "length (frames md)"], rule exI [of _ 1]) (simp add: list_update_beyond)
  show ?thesis
  proof (cases "pid < 0")
    case True
    with m p same show ?thesis by (auto simp: pinPage_io_def)
  next
    case nneg: False
    show ?thesis
    proof (cases "pin_scan (frames md) (capacity md) pid 0 None")
      case (Inl i)
      let ?md1 = "md\<lparr>frames := (frames md)[i := (frames md ! i)
                       \<lparr>pinCount := int32 (pinCount (frames md ! i) + 1)\<rparr>]\<rparr>"
      let ?md2 = "if strat ?md1 = RS_LRU \<or> strat ?md1 = RS_LRU_K
                  then moveToLRUHead ?md1 (Some i) else ?md1"
      from m p nneg Inl have b: "bm1 = bm\<lparr>mgmtData := Some ?md2\<rparr>"
        by (simp add: pinPage_io_def Let_def)
      have "map pinCount (frames ?md2) =
              (map pinCount (frames md))[i := int32 (pinCount (frames md ! i) + 1)]"
        by (simp add: pins_core [OF moveToLRUHead_core] map_update)
      with b show ?thesis by auto
    next
      case (Inr fr)
      show ?thesis
      proof (cases fr)
        case (Some free)
        with Inr m p nneg obtain md2 where
          l: "pin_load md free pid w = (md2, ph1, w1, io)" and b: "bm1 = bm\<lparr>mgmtData := Some md2\<rparr>"
          by (auto simp: pinPage_io_def split: prod.splits)
        from pin_load_pins [OF l] b show ?thesis by auto
      next
        case None
        with Inr m p nneg obtain r where pv: "pin_victim md w = Some r"
          by (auto simp: pinPage_io_def split: option.splits)
        show ?thesis
        proof (cases r)
          case (Inl md1)
          with pin_victim_frames [OF pv] have "frames md1 = frames md" by simp
          moreover from pv Inl None Inr m p nneg have "bm1 = bm\<lparr>mgmtData := Some md1\<rparr>"
            by (auto simp: pinPage_io_def)
          ultimately show ?thesis using same by auto
        next
          case (Inr t)
          then obtain slot md1 w0 io1 where t: "r = Inr (slot, md1, w0, io1)"
            by (cases t) auto
          with pin_victim_frames [OF pv] have f: "frames md1 = frames md" by simp
          from pv t None \<open>pin_scan (frames md) (capacity md) pid 0 None = Inr fr\<close> m p nneg
          obtain md2 io2 where l: "pin_load md1 slot pid w0 = (md2, ph1, w1, io2)"
            and b: "bm1 = bm\<lparr>mgmtData := Some md2\<rparr>"
            by (auto simp: pinPage_io_def split: prod.splits)
          from pin_load_pins [OF l] b f show ?thesis by auto
        qed
      qed
    qed
  qed
qed

lemma flush_frame_pins:
  "map pinCount (frames (fst (flush_frame c i (md, w)))) = map pinCount (frames md)"
  by (simp add: flush_frame_def Let_def map_pin_update split: prod.splits)

lemma flush_fold_pins:
  "map pinCount (frames (fst (fold (flush_frame c) is (md, w)))) = map pinCount (frames md)"
proof (induction "is" arbitrary: md w)
  case Nil
  then show ?case by simp
next
  case (Cons i "is")
  obtain m w1 where f: "flush_frame c i (md, w) = (m, w1)" by (cases "flush_frame c i (md, w)") auto
  with flush_frame_pins [of c i md w] have "map pinCount (frames m) = map pinCount (frames md)"
    by simp
  with f Cons.IH [of m w1] show ?case by simp
qed

lemma pins_within_update:
  fixes xs :: "int list"
  assumes w: "\<forall>c \<in> set xs. 0 \<le> c \<and> c \<le> k" and k: "k \<le> k1"
    and v: "i < length xs \<Longrightarrow> 0 \<le> v \<and> v \<le> k1"
  shows "\<forall>c \<in> set (xs[i := v]). 0 \<le> c \<and> c \<le> k1"
proof (cases "i < length xs")
  case True
  have sub: "set (xs[i := v]) \<subseteq> insert v (set xs)" by (rule set_update_subset_insert)
  show ?thesis
  proof
    fix c assume "c \<in> set (xs[i := v])"
    with sub have "c = v \<or> c \<in> set xs" by auto
    with w k v [OF True] show "0 \<le> c \<and> c \<le> k1" by force
  qed
next
  case False
  with w k show ?thesis by (force simp: list_update_beyond)
qed

lemma step_pins:
  assumes pw: "pins_within k bm" and k: "is_pin x \<Longrightarrow> k < 2147483647"
    and s: "pool_step x (bm, w) = Some (rc, bm1, w1)"
  shows "pins_within (if is_pin x then k + 1 else k) bm1"
proof (cases "mgmtData bm")
  case None
  with s have "mgmtData bm1 = None"
    by (cases x)
      (auto simp: pinPage_def pinPage_io_def unpinPage_def markDirty_def forcePage_def
        forceFlushPool_def shutdownBufferPool_def client_write_def)
  then show ?thesis by (simp add: pins_within_def pin_counts_def)
next
  case (Some md)
  let ?xs = "map pinCount (frames md)"
  from pw Some have w0: "\<forall>c \<in> set ?xs. 0 \<le> c \<and> c \<le> k"
    by (simp add: pins_within_def pin_counts_def)
  have same: "pins_within k b" if "mgmtData b = None \<or> (\<exists>m. mgmtData b = Some m \<and>
      map pinCount (frames m) = ?xs)" for b
    using that w0 unfolding pins_within_def pin_counts_def by (auto simp del: set_map)
  show ?thesis
  proof (cases x)
    case (Pin p)
    with s obtain ph1 io where
      pp: "pinPage_io bm (handle_for p) p w = Some ((rc, bm1, ph1, w1), io)"
      by (auto simp: pinPage_def)
    from pinPage_pins [OF Some pp] obtain md1 i v where
      m1: "mgmtData bm1 = Some md1"
      and e: "map pinCount (frames md1) = ?xs[i := v]"
      and v: "v = 1 \<or> v = int32 (pinCount (frames md ! i) + 1)"
      by blast
    have "0 \<le> v \<and> v \<le> k + 1" if i: "i < length ?xs"
    proof -
      from i have "?xs ! i \<in> set ?xs" by (rule nth_mem)
      with w0 i have c: "0 \<le> pinCount (frames md ! i) \<and> pinCount (frames md ! i) \<le> k" by simp
      with k Pin have "int32 (pinCount (frames md ! i) + 1) = pinCount (frames md ! i) + 1"
        by (intro int32_id) simp_all
      with v c show ?thesis by auto
    qed
    from pins_within_update [OF w0 _ this] e m1 Pin show ?thesis
      by (simp add: pins_within_def pin_counts_def)
  next
    case (Unpin p)
    show ?thesis
    proof (cases "find_page (frames md) (capacity md) p 0")
      case None
      with s Some Unpin same [of bm1] show ?thesis
        by (auto simp: unpinPage_def handle_for_def)
    next
      case (Some i)
      show ?thesis
      proof (cases "0 < pinCount (frames md ! i)")
        case False
        with s Some \<open>mgmtData bm = Some md\<close> Unpin same [of bm1] show ?thesis
          by (auto simp: unpinPage_def handle_for_def)
      next
        case True
        let ?v = "pinCount (frames md ! i) - 1"
        from s Some \<open>mgmtData bm = Some md\<close> Unpin True
        have b: "bm1 = bm\<lparr>mgmtData := Some (md\<lparr>frames := (frames md)[i := (frames md ! i)
                                  \<lparr>pinCount := ?v\<rparr>]\<rparr>)\<rparr>"
          by (auto simp: unpinPage_def handle_for_def)
        have "0 \<le> ?v \<and> ?v \<le> k" if i: "i < length ?xs"
        proof -
          from i have "?xs ! i \<in> set ?xs" by (rule nth_mem)
          with w0 have "0 \<le> ?xs ! i \<and> ?xs ! i \<le> k" by blast
          with i True show ?thesis by simp
        qed
        from pins_within_update [OF w0 _ this] b Unpin show ?thesis
          by (simp add: pins_within_def pin_counts_def map_update)
      qed
    qed
  next
    case (MarkDirty p)
    with s Some same [of bm1] show ?thesis
      by (auto simp: markDirty_def map_pin_update split: option.splits)
  next
    case (ForcePage p)
    with s Some same [of bm1] show ?thesis
      by (auto simp: forcePage_def map_pin_update split: option.splits prod.splits)
  next
    case ForceFlush
    with s Some flush_fold_pins [of True "[0 ..< capacity md]" md w] same [of bm1] show ?thesis
      by (auto simp: forceFlushPool_def split: prod.splits)
  next
    case Shutdown
    with s Some same [of bm1] show ?thesis
      by (auto simp: shutdownBufferPool_def split: prod.splits)
  next
    case (ClientWrite i bs)
    with s Some same [of bm1] show ?thesis
      by (auto simp: client_write_def map_pin_update split: if_splits)
  qed
qed

lemma run_pins:
  assumes "pins_within k bm" and "k + int (length (filter is_pin ops)) < 2147483648"
    and "run ops (bm, w) = Some (rcs, bm1, w1)"
  shows "pins_within (k + int (length (filter is_pin ops))) bm1"
  using assms
proof (induction ops arbitrary: k bm w rcs)
  case Nil
  then show ?case by simp
next
  case (Cons x xs)
  from Cons.prems(3) obtain rc bm' w' rcs' where
    s: "pool_step x (bm, w) = Some (rc, bm', w')" and r: "run xs (bm', w') = Some (rcs', bm1, w1)"
    by (auto split: option.splits prod.splits)
  have kx: "is_pin x \<Longrightarrow> k < 2147483647" using Cons.prems(2) by (cases "is_pin x") simp_all
  from step_pins [OF Cons.prems(1) kx s]
  have p: "pins_within (if is_pin x then k + 1 else k) bm'" by simp
  have b: "(if is_pin x then k + 1 else k) + int (length (filter is_pin xs)) < 2147483648"
    using Cons.prems(2) by (cases "is_pin x") simp_all
  from Cons.IH [OF p b r] show ?case by (cases "is_pin x") (simp_all add: ac_simps)
qed

lemma init_pins:
  assumes "initBufferPool bm0 name n st w = Return (RC_OK, bm)"
  shows "pins_within 0 bm"
  using assms
  by (auto simp: initBufferPool_def pins_within_def pin_counts_def
      split: prod.splits if_splits option.splits)


section \<open>Storage codes during a pin\<close>

text \<open>
  C1 (amended). Start from any pool that \<^verbatim>\<open>initBufferPool\<close> returned with
  \<^verbatim>\<open>RC_OK\<close> and run any sequence of operations. On the pool the run ends in, if
  it was not shut down, \<^verbatim>\<open>pinPage\<close> returns for every page number, handle and
  disk, and never with a code of the storage manager: it returns \<^verbatim>\<open>RC_OK\<close>
  whenever it made a storage call, whatever the call returned, and
  \<^verbatim>\<open>RC_READ_NON_EXISTING_PAGE\<close> only without any storage call. \<open>readIO\<close> advances
  by one for every \<^verbatim>\<open>readBlock\<close> call and \<open>writeIO\<close> by one for every write-back
  call, successful or not.
\<close>

theorem pinPage_drops_storage_codes:
  assumes "initBufferPool bm0 name n st w0 = Return (RC_OK, bmI)"
  shows "\<exists>rcs bm w1.
           run ops (bmI, w) = Some (rcs, bm, w1) \<and>
           (\<forall>md. mgmtData bm = Some md \<longrightarrow>
              (\<forall>ph pid w2. \<exists>rc bm1 ph1 w3 io md1.
                 pinPage_io bm ph pid w2 = Some ((rc, bm1, ph1, w3), io) \<and>
                 (rc = RC_OK \<or> rc = RC_READ_NON_EXISTING_PAGE \<and> io = []) \<and>
                 mgmtData bm1 = Some md1 \<and>
                 readIO md1 = readIO md + of_nat (length (filter is_load io)) \<and>
                 writeIO md1 = writeIO md + of_nat (length (filter is_writeback io))))"
proof -
  from init_ok [OF assms] have ok: "pool_ok bmI" by simp
  from run_ok [OF ok, of ops w] obtain rcs bm w1 where
    r: "run ops (bmI, w) = Some (rcs, bm, w1)" and ok1: "pool_ok bm" by blast
  have "\<exists>rc bm1 ph1 w3 io md1.
          pinPage_io bm ph pid w2 = Some ((rc, bm1, ph1, w3), io) \<and>
          (rc = RC_OK \<or> rc = RC_READ_NON_EXISTING_PAGE \<and> io = []) \<and>
          mgmtData bm1 = Some md1 \<and>
          readIO md1 = readIO md + of_nat (length (filter is_load io)) \<and>
          writeIO md1 = writeIO md + of_nat (length (filter is_writeback io))"
    if m: "mgmtData bm = Some md" for md ph pid w2
  proof -
    from ok1 m have inv: "pool_inv md" by (simp add: pool_ok_def)
    have "\<exists>rc bm1 ph1 w3 io. pinPage_io bm ph pid w2 = Some ((rc, bm1, ph1, w3), io)"
    proof (cases "pid < 0")
      case True
      with m show ?thesis by (simp add: pinPage_io_def)
    next
      case False
      then have "0 \<le> pid" by simp
      from pinPage_io_inv [OF m inv this, of ph w2] show ?thesis by blast
    qed
    then obtain rc bm1 ph1 w3 io where
      p: "pinPage_io bm ph pid w2 = Some ((rc, bm1, ph1, w3), io)" by blast
    from pinPage_io_codes [OF p m] p show ?thesis by blast
  qed
  with r show ?thesis by blast
qed

theorem pinPage_drops_storage_codes_witness:
  "\<exists>bm1 ph1 w1 md md1.
     initBufferPool blank_pool ''db'' 1 RS_FIFO (disk_pages 1 1) =
       Return (RC_OK, fresh_pool 1 RS_FIFO (disk_pages 1 1)) \<and>
     run [] (fresh_pool 1 RS_FIFO (disk_pages 1 1), disk_pages 1 1) =
       Some ([], fresh_pool 1 RS_FIFO (disk_pages 1 1), disk_pages 1 1) \<and>
     pinPage_io (fresh_pool 1 RS_FIFO (disk_pages 1 1)) (handle_for 5) 5 (disk_pages 1 1) =
       Some ((RC_OK, bm1, ph1, w1), [Grow RC_WRITE_FAILED, Load RC_READ_NON_EXISTING_PAGE]) \<and>
     mgmtData (fresh_pool 1 RS_FIFO (disk_pages 1 1)) = Some md \<and>
     mgmtData bm1 = Some md1 \<and> readIO md1 = readIO md + 1 \<and> writeIO md1 = writeIO md"
proof -
  let ?P = "fresh_pool 1 RS_FIFO (disk_pages 1 1)"
  have i: "initBufferPool blank_pool ''db'' 1 RS_FIFO (disk_pages 1 1) = Return (RC_OK, ?P)"
    by (simp add: init_eval PAGE_SIZE_pos)
  have "mgmtData ?P \<noteq> None" by (simp add: init_eval PAGE_SIZE_pos)
  then obtain md where m: "mgmtData ?P = Some md" by blast
  from pinPage_drops_storage_codes [OF i, of "[]" "disk_pages 1 1"] m
  obtain rc bm1 ph1 w3 io md1 where
    p: "pinPage_io ?P (handle_for 5) 5 (disk_pages 1 1) = Some ((rc, bm1, ph1, w3), io)"
    and q: "mgmtData bm1 = Some md1"
      "readIO md1 = readIO md + of_nat (length (filter is_load io))"
      "writeIO md1 = writeIO md + of_nat (length (filter is_writeback io))"
    by fastforce
  from disk_full_pin_eval p have "rc = RC_OK"
    and "io = [Grow RC_WRITE_FAILED, Load RC_READ_NON_EXISTING_PAGE]"
    by auto
  with p q i m show ?thesis by auto
qed


section \<open>Pin safety\<close>

text \<open>
  C4 (as stated, refuted). A pool of one frame under LRU pins page 0 and then
  pins it \<open>2147483647\<close> more times, never unpinning: the pin count, a C \<^verbatim>\<open>int\<close>,
  has gone from \<^verbatim>\<open>INT_MAX\<close> to \<^verbatim>\<open>INT_MIN\<close>. \<^verbatim>\<open>selectVictim\<close> now returns that
  frame, whose pin count is not 0, and pinning page 1 returns \<^verbatim>\<open>RC_OK\<close> and
  loads page 1 over page 0.
\<close>

theorem lru_evicts_frame_after_pin_count_wraps:
  "map_option (\<lambda>(rcs, bm, w). (map_option getFixCounts (mgmtData bm),
       map_option getFrameContents (mgmtData bm),
       map_option (map_option fst \<circ> selectVictim) (mgmtData bm)))
     (run (Pin 0 # replicate 2147483647 (Pin 0))
        (fresh_pool 1 RS_LRU (disk_pages 4 4), disk_pages 4 4))
   = Some (Some [- 2147483648], Some [0], Some (Some (Some 0))) \<and>
   map_option (\<lambda>(rcs, bm, w). (last rcs, map_option getFrameContents (mgmtData bm),
       map_option getFixCounts (mgmtData bm)))
     (run (Pin 0 # replicate 2147483647 (Pin 0) @ [Pin 1])
        (fresh_pool 1 RS_LRU (disk_pages 4 4), disk_pages 4 4))
   = Some (RC_OK, Some [1], Some [1])"
proof -
  let ?w = "disk_pages 4 4"
  let ?s0 = "(fresh_pool 1 RS_LRU ?w, ?w)"
  let ?P1 = "fst (after [Pin 0] ?s0)"
  from pin_count_wraps_run obtain md f where
    m: "mgmtData ?P1 = Some md" and fr: "frames md = [f]" and cap: "capacity md = 1"
    and pg: "pageId f = 0" and cl: "\<not> isDirty f"
    and st: "strat md = RS_LRU" and hd: "lruHead md = Some 0" and tl: "lruTail md = Some 0"
    and r: "run (Pin 0 # replicate 2147483647 (Pin 0)) ?s0 =
      Some (RC_OK # replicate 2147483647 RC_OK,
            ?P1\<lparr>mgmtData := Some (md\<lparr>frames := [f\<lparr>pinCount := - 2147483648\<rparr>]\<rparr>)\<rparr>, ?w)"
    by blast
  let ?f = "f\<lparr>pinCount := - 2147483648\<rparr>"
  let ?md = "md\<lparr>frames := [?f]\<rparr>"
  let ?P2 = "?P1\<lparr>mgmtData := Some ?md\<rparr>"
  have sv: "selectVictim ?md = Some (Some 0, ?md)"
    using st tl by (simp add: selectVictim_def lru_scan.simps)
  have a: "getFixCounts ?md = [- 2147483648] \<and> getFrameContents ?md = [0]"
    using cap pg by (simp add: getFixCounts_def getFrameContents_def)
  have "\<exists>bm1 md1 w1. pool_step (Pin 1) (?P2, ?w) = Some (RC_OK, bm1, w1) \<and>
           mgmtData bm1 = Some md1 \<and> getFrameContents md1 = [1] \<and> getFixCounts md1 = [1]"
    using cap pg st hd tl by (intro one_frame_evict [where md = ?md and f = ?f]) (simp_all add: NO_PAGE_def)
  then obtain bm1 md1 w1 where e: "pool_step (Pin 1) (?P2, ?w) = Some (RC_OK, bm1, w1)"
    and e1: "mgmtData bm1 = Some md1" "getFrameContents md1 = [1]" "getFixCounts md1 = [1]"
    by blast
  have r2: "run (Pin 0 # replicate 2147483647 (Pin 0) @ [Pin 1]) ?s0 =
      Some ((RC_OK # replicate 2147483647 RC_OK) @ [RC_OK], bm1, w1)"
    using r e run_append [of "Pin 0 # replicate 2147483647 (Pin 0)" "[Pin 1]" ?s0]
    by (simp del: pool_step.simps)
  show ?thesis
    unfolding r r2 using sv a e1 by simp
qed


text \<open>
  C4 (amended). Start from any pool that \<^verbatim>\<open>initBufferPool\<close> returned with
  \<^verbatim>\<open>RC_OK\<close> and run any sequence of operations on any disk: the run ends. In
  the pool it ends in, \<^verbatim>\<open>selectVictim\<close> returns, under FIFO and under every other
  strategy, and a frame it returns is a frame of the pool whose pin count is
  not positive; the pin count is 0 under FIFO, and under every strategy when
  the run made fewer than \<open>2^31\<close> pins. Whatever operation comes next returns,
  and leaves the page number and (a client's own write apart) the page buffer
  of every frame whose pin count is positive as they were: a frame with a
  positive pin count is not evicted and not loaded over.
\<close>

theorem pinned_frames_are_never_victims:
  assumes "initBufferPool bm0 name n st w0 = Return (RC_OK, bm)"
  shows "\<exists>rcs bm1 w1.
           run ops (bm, w) = Some (rcs, bm1, w1) \<and>
           (\<forall>md. mgmtData bm1 = Some md \<longrightarrow>
              (\<exists>v md1. selectVictim md = Some (v, md1) \<and>
                 (\<forall>slot. v = Some slot \<longrightarrow>
                    slot < capacity md \<and> pinCount (frames md ! slot) \<le> 0 \<and>
                    (strat md = RS_FIFO \<or> length (filter is_pin ops) < 2147483648 \<longrightarrow>
                       pinCount (frames md ! slot) = 0))) \<and>
              (\<forall>x. \<exists>rc bm2 w2.
                 pool_step x (bm1, w1) = Some (rc, bm2, w2) \<and> step_safe x bm1 bm2))"
proof -
  from init_ok [OF assms] have ok: "pool_ok bm" by simp
  from run_ok [OF ok, of ops w] obtain rcs bm1 w1 where
    r: "run ops (bm, w) = Some (rcs, bm1, w1)" and ok1: "pool_ok bm1" by blast
  have "\<exists>v md1. selectVictim md = Some (v, md1) \<and>
          (\<forall>slot. v = Some slot \<longrightarrow>
             slot < capacity md \<and> pinCount (frames md ! slot) \<le> 0 \<and>
             (strat md = RS_FIFO \<or> length (filter is_pin ops) < 2147483648 \<longrightarrow>
                pinCount (frames md ! slot) = 0))"
    if m: "mgmtData bm1 = Some md" for md
  proof -
    from ok1 m have inv: "pool_inv md" by (simp add: pool_ok_def)
    then have len: "length (frames md) = capacity md" by (simp add: pool_inv_def)
    from selectVictim_unpinned [OF inv] obtain v md1 where
      sv: "selectVictim md = Some (v, md1)"
      and vs: "\<forall>slot. v = Some slot \<longrightarrow>
              slot < capacity md \<and> pinCount (frames md ! slot) \<le> 0 \<and>
              (strat md = RS_FIFO \<longrightarrow> pinCount (frames md ! slot) = 0)"
      by blast
    have "pinCount (frames md ! slot) = 0"
      if v: "v = Some slot" and few: "length (filter is_pin ops) < 2147483648" for slot
    proof -
      from few have "0 + int (length (filter is_pin ops)) < 2147483648" by simp
      from run_pins [OF init_pins [OF assms] this r] m
      have "\<forall>c \<in> set (map pinCount (frames md)). 0 \<le> c"
        by (simp add: pins_within_def pin_counts_def)
      moreover from vs v len have "slot < length (frames md)" by simp
      ultimately have "0 \<le> pinCount (frames md ! slot)" by simp
      with vs v show ?thesis by auto
    qed
    with sv vs show ?thesis by blast
  qed
  moreover have "\<exists>rc bm2 w2. pool_step x (bm1, w1) = Some (rc, bm2, w2) \<and> step_safe x bm1 bm2" for x
    using pool_step_ok [OF ok1, of x w1] by blast
  ultimately show ?thesis using r by blast
qed

theorem pinned_frames_are_never_victims_witness:
  "\<exists>rcs bm1 w1 md v md1.
     run [Pin 0, Pin 1, Unpin 0] (fresh_pool 2 RS_LRU (disk_pages 4 4), disk_pages 4 4) =
       Some (rcs, bm1, w1) \<and>
     mgmtData bm1 = Some md \<and> getFixCounts md = [0, 1] \<and>
     selectVictim md = Some (v, md1) \<and> v \<noteq> Some 1 \<and>
     (\<forall>slot. v = Some slot \<longrightarrow> pinCount (frames md ! slot) = 0) \<and>
     (\<exists>rc bm2 w2. pool_step (Pin 2) (bm1, w1) = Some (rc, bm2, w2) \<and> step_safe (Pin 2) bm1 bm2)"
proof -
  let ?s = "(fresh_pool 2 RS_LRU (disk_pages 4 4), disk_pages 4 4)"
  let ?ops = "[Pin 0, Pin 1, Unpin 0]"
  from pinned_frames_are_never_victims [OF lru_pool_init_eval, of ?ops "disk_pages 4 4"]
  obtain rcs bm1 w1 where r: "run ?ops ?s = Some (rcs, bm1, w1)"
    and a: "\<forall>md. mgmtData bm1 = Some md \<longrightarrow>
              (\<exists>v md1. selectVictim md = Some (v, md1) \<and>
                 (\<forall>slot. v = Some slot \<longrightarrow>
                    slot < capacity md \<and> pinCount (frames md ! slot) \<le> 0 \<and>
                    (strat md = RS_FIFO \<or> length (filter is_pin ?ops) < 2147483648 \<longrightarrow>
                       pinCount (frames md ! slot) = 0))) \<and>
              (\<forall>x. \<exists>rc bm2 w2.
                 pool_step x (bm1, w1) = Some (rc, bm2, w2) \<and> step_safe x bm1 bm2)"
    by blast
  from lru_pool_run_eval r obtain md where m: "mgmtData bm1 = Some md"
    and c: "capacity md = 2" and f: "getFixCounts md = [0, 1]"
    by auto
  from f c have p1: "pinCount (frames md ! 1) = 1"
    by (simp add: getFixCounts_def numeral_2_eq_2)
  have few: "length (filter is_pin ?ops) < 2147483648" by simp
  from a m few obtain v md1 where sv: "selectVictim md = Some (v, md1)"
    and vs: "\<forall>slot. v = Some slot \<longrightarrow> slot < capacity md \<and> pinCount (frames md ! slot) = 0"
    by blast
  from vs p1 have nv: "v \<noteq> Some 1" by auto
  from a m obtain rc bm2 w2 where
    "pool_step (Pin 2) (bm1, w1) = Some (rc, bm2, w2) \<and> step_safe (Pin 2) bm1 bm2"
    by blast
  with r m f sv nv vs show ?thesis by blast
qed


section \<open>Residency uniqueness\<close>

text \<open>
  C6. Start from any pool that \<^verbatim>\<open>initBufferPool\<close> returned with \<^verbatim>\<open>RC_OK\<close> and run
  any sequence of operations on any disk: the run ends, and in the pool it ends
  in no page number other than \<^verbatim>\<open>NO_PAGE\<close> is held by two frames. Pinning a page
  that frame \<open>i\<close> holds returns \<^verbatim>\<open>RC_OK\<close> with a handle into frame \<open>i\<close>, makes no
  storage call, leaves the counters alone and changes nothing in the frames
  but the pin count of frame \<open>i\<close>, which goes up by one as a C \<^verbatim>\<open>int\<close> does:
  that is the count plus one when the run made fewer than \<open>2^31 - 1\<close> pins,
  and \<^verbatim>\<open>INT_MIN\<close> after \<^verbatim>\<open>INT_MAX\<close>.
\<close>

theorem resident_pages_are_unique:
  assumes "initBufferPool bm0 name n st w0 = Return (RC_OK, bm)"
  shows "\<exists>rcs bm1 w1.
           run ops (bm, w) = Some (rcs, bm1, w1) \<and>
           (\<forall>md. mgmtData bm1 = Some md \<longrightarrow>
              unique_pages (frames md) \<and>
              (length (filter is_pin ops) < 2147483647 \<longrightarrow>
                 (\<forall>j < capacity md.
                    int32 (pinCount (frames md ! j) + 1) = pinCount (frames md ! j) + 1)) \<and>
              (\<forall>i pid ph. i < capacity md \<and> 0 \<le> pid \<and> pageId (frames md ! i) = pid \<longrightarrow>
                 (\<exists>md2. pinPage_io bm1 ph pid w1 =
                     Some ((RC_OK, bm1\<lparr>mgmtData := Some md2\<rparr>,
                            \<lparr>pageNum = pid, pdata = Some i\<rparr>, w1), []) \<and>
                   map frame_core (frames md2) =
                     (map frame_core (frames md))[i := (pid, data (frames md ! i),
                        isDirty (frames md ! i), int32 (pinCount (frames md ! i) + 1))] \<and>
                   readIO md2 = readIO md \<and> writeIO md2 = writeIO md \<and> fh md2 = fh md)))"
proof -
  from init_ok [OF assms] have ok: "pool_ok bm" by simp
  from run_ok [OF ok, of ops w] obtain rcs bm1 w1 where
    r: "run ops (bm, w) = Some (rcs, bm1, w1)" and ok1: "pool_ok bm1" by blast
  have "unique_pages (frames md)" if "mgmtData bm1 = Some md" for md
    using ok1 that by (simp add: pool_ok_def pool_inv_def)
  moreover have "\<exists>md2. pinPage_io bm1 ph pid w1 =
                     Some ((RC_OK, bm1\<lparr>mgmtData := Some md2\<rparr>,
                            \<lparr>pageNum = pid, pdata = Some i\<rparr>, w1), []) \<and>
                   map frame_core (frames md2) =
                     (map frame_core (frames md))[i := (pid, data (frames md ! i),
                        isDirty (frames md ! i), int32 (pinCount (frames md ! i) + 1))] \<and>
                   readIO md2 = readIO md \<and> writeIO md2 = writeIO md \<and> fh md2 = fh md"
    if "mgmtData bm1 = Some md" "i < capacity md" "0 \<le> pid" "pageId (frames md ! i) = pid"
    for md i pid ph
    using ok1 that by (intro pin_hit) (simp_all add: pool_ok_def)
  moreover have "int32 (pinCount (frames md ! j) + 1) = pinCount (frames md ! j) + 1"
    if m: "mgmtData bm1 = Some md" and few: "length (filter is_pin ops) < 2147483647"
      and j: "j < capacity md" for md j
  proof -
    from ok1 m have len: "length (frames md) = capacity md" by (simp add: pool_ok_def pool_inv_def)
    from few have "0 + int (length (filter is_pin ops)) < 2147483648" by simp
    from run_pins [OF init_pins [OF assms] this r] m
    have "\<forall>c \<in> set (map pinCount (frames md)). 0 \<le> c \<and> c \<le> int (length (filter is_pin ops))"
      by (simp add: pins_within_def pin_counts_def)
    moreover have "map pinCount (frames md) ! j \<in> set (map pinCount (frames md))"
      using j len by (intro nth_mem) simp
    ultimately have "0 \<le> pinCount (frames md ! j) \<and>
        pinCount (frames md ! j) \<le> int (length (filter is_pin ops))"
      using j len by simp
    with few show ?thesis by (intro int32_id) simp_all
  qed
  ultimately show ?thesis using r by blast
qed

theorem resident_pages_are_unique_witness:
  "\<exists>rcs bm1 w1 md md2.
     run [Pin 3, Unpin 3] (fresh_pool 2 RS_FIFO (disk_pages 4 4), disk_pages 4 4) =
       Some (rcs, bm1, w1) \<and>
     mgmtData bm1 = Some md \<and> getFrameContents md = [3, - 1] \<and> unique_pages (frames md) \<and>
     pinPage_io bm1 (handle_for 3) 3 w1 =
       Some ((RC_OK, bm1\<lparr>mgmtData := Some md2\<rparr>, \<lparr>pageNum = 3, pdata = Some 0\<rparr>, w1), []) \<and>
     readIO md2 = readIO md \<and> writeIO md2 = writeIO md \<and>
     int32 (pinCount (frames md ! 0) + 1) = pinCount (frames md ! 0) + 1"
proof -
  let ?s = "(fresh_pool 2 RS_FIFO (disk_pages 4 4), disk_pages 4 4)"
  from resident_pages_are_unique [OF fifo_pool_init_eval, of "[Pin 3, Unpin 3]" "disk_pages 4 4"]
  obtain rcs bm1 w1 where r: "run [Pin 3, Unpin 3] ?s = Some (rcs, bm1, w1)"
    and a: "\<forall>md. mgmtData bm1 = Some md \<longrightarrow>
              unique_pages (frames md) \<and>
              (length (filter is_pin [Pin 3, Unpin 3]) < 2147483647 \<longrightarrow>
                 (\<forall>j < capacity md.
                    int32 (pinCount (frames md ! j) + 1) = pinCount (frames md ! j) + 1)) \<and>
              (\<forall>i pid ph. i < capacity md \<and> 0 \<le> pid \<and> pageId (frames md ! i) = pid \<longrightarrow>
                 (\<exists>md2. pinPage_io bm1 ph pid w1 =
                     Some ((RC_OK, bm1\<lparr>mgmtData := Some md2\<rparr>,
                            \<lparr>pageNum = pid, pdata = Some i\<rparr>, w1), []) \<and>
                   map frame_core (frames md2) =
                     (map frame_core (frames md))[i := (pid, data (frames md ! i),
                        isDirty (frames md ! i), int32 (pinCount (frames md ! i) + 1))] \<and>
                   readIO md2 = readIO md \<and> writeIO md2 = writeIO md \<and> fh md2 = fh md))"
    by blast
  from fifo_pool_run_eval r obtain md where m: "mgmtData bm1 = Some md"
    and c: "capacity md = 2" and f: "getFrameContents md = [3, - 1]"
    by auto
  from f c have p0: "pageId (frames md ! 0) = 3"
    by (simp add: getFrameContents_def numeral_2_eq_2)
  from a m have u: "unique_pages (frames md)" by blast
  from a m have h: "\<forall>i pid ph. i < capacity md \<and> 0 \<le> pid \<and> pageId (frames md ! i) = pid \<longrightarrow>
                 (\<exists>md2. pinPage_io bm1 ph pid w1 =
                     Some ((RC_OK, bm1\<lparr>mgmtData := Some md2\<rparr>,
                            \<lparr>pageNum = pid, pdata = Some i\<rparr>, w1), []) \<and>
                   map frame_core (frames md2) =
                     (map frame_core (frames md))[i := (pid, data (frames md ! i),
                        isDirty (frames md ! i), int32 (pinCount (frames md ! i) + 1))] \<and>
                   readIO md2 = readIO md \<and> writeIO md2 = writeIO md \<and> fh md2 = fh md)"
    by blast
  have "0 < capacity md \<and> (0::int) \<le> 3 \<and> pageId (frames md ! 0) = 3" using c p0 by simp
  with h [rule_format, of 0 3 "handle_for 3"]
  have "\<exists>md2. pinPage_io bm1 (handle_for 3) 3 w1 =
                     Some ((RC_OK, bm1\<lparr>mgmtData := Some md2\<rparr>,
                            \<lparr>pageNum = 3, pdata = Some 0\<rparr>, w1), []) \<and>
                   map frame_core (frames md2) =
                     (map frame_core (frames md))[0 := (3, data (frames md ! 0),
                        isDirty (frames md ! 0), int32 (pinCount (frames md ! 0) + 1))] \<and>
                   readIO md2 = readIO md \<and> writeIO md2 = writeIO md \<and> fh md2 = fh md"
    by blast
  then obtain md2 where "pinPage_io bm1 (handle_for 3) 3 w1 =
       Some ((RC_OK, bm1\<lparr>mgmtData := Some md2\<rparr>, \<lparr>pageNum = 3, pdata = Some 0\<rparr>, w1), [])"
    "readIO md2 = readIO md" "writeIO md2 = writeIO md" by blast
  moreover from a m c have "int32 (pinCount (frames md ! 0) + 1) = pinCount (frames md ! 0) + 1"
    by simp
  ultimately show ?thesis using r m f u by blast
qed


section \<open>\<^verbatim>\<open>RS_LRU_K\<close> and \<^verbatim>\<open>RS_LRU\<close>\<close>

text \<open>
  The code compares the strategy with \<^verbatim>\<open>RS_FIFO\<close> in \<^verbatim>\<open>selectVictim\<close> and on a
  load, and with \<^verbatim>\<open>RS_LRU\<close> or \<^verbatim>\<open>RS_LRU_K\<close> on a hit, so every function commutes
  with replacing \<^verbatim>\<open>RS_LRU\<close> by \<^verbatim>\<open>RS_LRU_K\<close> in the pool.
\<close>

lemma selectVictim_restrat:
  assumes "strat md = RS_LRU"
  shows "selectVictim (md\<lparr>strat := RS_LRU_K\<rparr>) =
           map_option (\<lambda>(v, m). (v, m\<lparr>strat := RS_LRU_K\<rparr>)) (selectVictim md)"
  using assms by (simp add: selectVictim_def option.map_comp comp_def)

lemma pin_victim_restrat:
  assumes "strat md = RS_LRU"
  shows "pin_victim (md\<lparr>strat := RS_LRU_K\<rparr>) w =
           map_option (map_sum (\<lambda>m. m\<lparr>strat := RS_LRU_K\<rparr>)
                         (\<lambda>(s, m, w1, io). (s, m\<lparr>strat := RS_LRU_K\<rparr>, w1, io)))
             (pin_victim md w)"
  by (simp add: pin_victim_def selectVictim_restrat [OF assms]
      split: option.splits prod.splits)

lemma pin_load_restrat:
  assumes "strat md = RS_LRU"
  shows "pin_load (md\<lparr>strat := RS_LRU_K\<rparr>) slot pid w =
           (case pin_load md slot pid w of (m, ph, w1, io) \<Rightarrow> (m\<lparr>strat := RS_LRU_K\<rparr>, ph, w1, io))"
  using assms
  by (simp add: pin_load_def Let_def moveToLRUHead_def split: prod.splits option.splits)

lemma restrat_mgmt [simp]:
  "restrat st (bm\<lparr>mgmtData := Some m\<rparr>) = (restrat st bm)\<lparr>mgmtData := Some (m\<lparr>strat := st\<rparr>)\<rparr>"
  by (simp add: restrat_def)

lemma restrat_data [simp]:
  "mgmtData (restrat st bm) = map_option (\<lambda>md. md\<lparr>strat := st\<rparr>) (mgmtData bm)"
  by (simp add: restrat_def)

lemma pin_victim_strat:
  assumes "pin_victim md w = Some (Inr (slot, m, w1, io))"
  shows "strat m = strat md"
proof -
  from assms obtain md0 where sv: "selectVictim md = Some (Some slot, md0)"
    by (auto simp: pin_victim_def split: option.splits prod.splits if_splits)
  from selectVictim_fields [OF sv] obtain h c where "md0 = md\<lparr>fifoHead := h, fifoCount := c\<rparr>"
    by blast
  with assms sv show ?thesis
    by (auto simp: pin_victim_def split: prod.splits if_splits)
qed

lemma pinPage_io_restrat:
  assumes "lru_pool bm"
  shows "pinPage_io (restrat RS_LRU_K bm) ph pid w =
           map_option (\<lambda>((rc, b, ph1, w1), io). ((rc, restrat RS_LRU_K b, ph1, w1), io))
             (pinPage_io bm ph pid w)"
proof (cases "mgmtData bm")
  case None
  then show ?thesis by (simp add: pinPage_io_def restrat_def)
next
  case (Some md)
  with assms have l: "strat md = RS_LRU" by (simp add: lru_pool_def)
  show ?thesis
  proof (cases "pid < 0")
    case True
    with Some show ?thesis by (simp add: pinPage_io_def)
  next
    case nneg: False
    show ?thesis
    proof (cases "pin_scan (frames md) (capacity md) pid 0 None")
      case (Inl i)
      with Some l nneg show ?thesis
        by (simp add: pinPage_io_def Let_def moveToLRUHead_def split: option.splits)
    next
      case (Inr fr)
      show ?thesis
      proof (cases fr)
        case (Some free)
        with \<open>mgmtData bm = Some md\<close> Inr nneg show ?thesis
          by (simp add: pinPage_io_def pin_load_restrat [OF l] split: prod.splits)
      next
        case None
        show ?thesis
        proof (cases "pin_victim md w")
          case pvn: None
          with \<open>mgmtData bm = Some md\<close> Inr None nneg show ?thesis
            by (simp add: pinPage_io_def pin_victim_restrat [OF l])
        next
          case (Some v)
          show ?thesis
          proof (cases v)
            case (Inl m)
            with Some \<open>mgmtData bm = Some md\<close> Inr None nneg show ?thesis
              by (simp add: pinPage_io_def pin_victim_restrat [OF l])
          next
            case (Inr t)
            then obtain slot m w1 io1 where t: "v = Inr (slot, m, w1, io1)" by (cases t) auto
            from pin_victim_strat [of md w slot m w1 io1] Some t l
            have lm: "strat m = RS_LRU" by simp
            from Some t \<open>mgmtData bm = Some md\<close>
              \<open>pin_scan (frames md) (capacity md) pid 0 None = Inr fr\<close> None nneg
            show ?thesis
              by (simp add: pinPage_io_def pin_victim_restrat [OF l] pin_load_restrat [OF lm]
                  split: prod.splits)
          qed
        qed
      qed
    qed
  qed
qed

lemma flush_frame_restrat:
  "flush_frame c i (md\<lparr>strat := st\<rparr>, w) =
     (case flush_frame c i (md, w) of (m, w1) \<Rightarrow> (m\<lparr>strat := st\<rparr>, w1))"
  by (simp add: flush_frame_def Let_def split: prod.splits)

lemma flush_fold_restrat:
  "fold (flush_frame c) is (md\<lparr>strat := st\<rparr>, w) =
     (case fold (flush_frame c) is (md, w) of (m, w1) \<Rightarrow> (m\<lparr>strat := st\<rparr>, w1))"
proof (induction "is" arbitrary: md w)
  case Nil
  then show ?case by simp
next
  case (Cons i "is")
  obtain m w1 where f: "flush_frame c i (md, w) = (m, w1)" by (cases "flush_frame c i (md, w)") auto
  then have "flush_frame c i (md\<lparr>strat := st\<rparr>, w) = (m\<lparr>strat := st\<rparr>, w1)"
    by (simp add: flush_frame_restrat)
  with f Cons.IH [of m w1] show ?case by simp
qed

lemma pool_step_restrat:
  assumes "lru_pool bm"
  shows "pool_step x (restrat RS_LRU_K bm, w) =
           map_option (\<lambda>(rc, b, w1). (rc, restrat RS_LRU_K b, w1)) (pool_step x (bm, w))"
proof (cases x)
  case (Pin p)
  then show ?thesis
    by (simp add: pinPage_def pinPage_io_restrat [OF assms] option.map_comp comp_def
        split_def)
next
  case (Unpin p)
  then show ?thesis
    by (cases "mgmtData bm") (simp_all add: unpinPage_def restrat_def split: option.splits)
next
  case (MarkDirty p)
  then show ?thesis
    by (cases "mgmtData bm") (simp_all add: markDirty_def restrat_def split: option.splits)
next
  case (ForcePage p)
  then show ?thesis
    by (cases "mgmtData bm")
      (simp_all add: forcePage_def restrat_def split: option.splits prod.splits)
next
  case ForceFlush
  then show ?thesis
    by (cases "mgmtData bm")
      (simp_all add: forceFlushPool_def flush_fold_restrat restrat_def split: prod.splits)
next
  case Shutdown
  then show ?thesis
    by (cases "mgmtData bm")
      (simp_all add: shutdownBufferPool_def flush_fold_restrat restrat_def split: prod.splits)
next
  case (ClientWrite i bs)
  then show ?thesis
    by (cases "mgmtData bm") (simp_all add: client_write_def restrat_def)
qed

lemma lru_pool_step:
  assumes ok: "pool_ok bm" and l: "lru_pool bm"
    and s: "pool_step x (bm, w) = Some (rc, bm1, w1)"
  shows "lru_pool bm1"
proof -
  from pool_step_ok [OF ok, of x w] s have safe: "step_safe x bm bm1" by auto
  show ?thesis
  proof (cases "mgmtData bm")
    case None
    with safe show ?thesis by (simp add: step_safe_def lru_pool_def)
  next
    case (Some md)
    with l have "strat md = RS_LRU" by (simp add: lru_pool_def)
    with safe Some show ?thesis
      by (auto simp: step_safe_def lru_pool_def keeps_pages_def split: option.splits)
  qed
qed

lemma run_restrat:
  assumes "pool_ok bm" and "lru_pool bm"
  shows "run ops (restrat RS_LRU_K bm, w) =
           map_option (\<lambda>(rcs, b, w1). (rcs, restrat RS_LRU_K b, w1)) (run ops (bm, w))"
  using assms
proof (induction ops arbitrary: bm w)
  case Nil
  then show ?case by simp
next
  case (Cons x xs)
  from pool_step_ok [OF Cons.prems(1), of x w] obtain rc bm1 w1 where
    s: "pool_step x (bm, w) = Some (rc, bm1, w1)" and ok1: "pool_ok bm1" by blast
  from lru_pool_step [OF Cons.prems s] have l1: "lru_pool bm1" .
  from s have sk: "pool_step x (restrat RS_LRU_K bm, w) = Some (rc, restrat RS_LRU_K bm1, w1)"
    by (simp add: pool_step_restrat [OF Cons.prems(2)])
  from Cons.IH [OF ok1 l1, of w1] s sk show ?case
    by (cases "run xs (bm1, w1)") auto
qed

lemma init_restrat:
  assumes "initBufferPool bm0 name n RS_LRU w = Return (RC_OK, bm)"
  shows "initBufferPool bm0 name n RS_LRU_K w = Return (RC_OK, restrat RS_LRU_K bm)"
  using assms
  by (auto simp: initBufferPool_def restrat_def split: prod.splits if_splits option.splits)

lemma observe_restrat:
  "map_option observe (mgmtData (restrat st bm)) = map_option observe (mgmtData bm)"
  by (cases "mgmtData bm")
    (simp_all add: restrat_def observe_def getFrameContents_def getDirtyFlags_def
      getFixCounts_def getNumReadIO_def getNumWriteIO_def)

lemma lru_touch_run_eval:
  "map_option (\<lambda>(rcs, bm, w). (rcs, map_option getFrameContents (mgmtData bm)))
     (run [Pin 0, Unpin 0, Pin 1, Unpin 1, Pin 0, Unpin 0, Pin 2]
        (fresh_pool 2 RS_LRU (disk_pages 4 4), disk_pages 4 4)) =
   Some ([RC_OK, RC_OK, RC_OK, RC_OK, RC_OK, RC_OK, RC_OK], Some [0, 2])"
  by (simp add: init_eval pool_eval lru_scan.simps PAGE_SIZE_pos getFrameContents_def)

text \<open>
  C10. Whenever \<^verbatim>\<open>initBufferPool\<close> returns \<^verbatim>\<open>RC_OK\<close> with strategy \<^verbatim>\<open>RS_LRU\<close>, it
  returns \<^verbatim>\<open>RC_OK\<close> with strategy \<^verbatim>\<open>RS_LRU_K\<close> on the same arguments. Any sequence
  of operations, run on the two pools from the same disk, ends on both, with
  the same list of result codes and the same disk; the two final pools differ
  in the stored strategy only, so their page numbers, dirty flags, pin counts,
  read and write counters and page buffers are equal.
\<close>

theorem lru_k_behaves_as_lru:
  assumes "initBufferPool bm0 name n RS_LRU w0 = Return (RC_OK, bmL)"
  shows "\<exists>bmK rcs bmL1 bmK1 w1.
           initBufferPool bm0 name n RS_LRU_K w0 = Return (RC_OK, bmK) \<and>
           run ops (bmL, w) = Some (rcs, bmL1, w1) \<and>
           run ops (bmK, w) = Some (rcs, bmK1, w1) \<and>
           bmK1 = restrat RS_LRU_K bmL1 \<and>
           map_option observe (mgmtData bmK1) = map_option observe (mgmtData bmL1)"
proof -
  from init_ok [OF assms] have ok: "pool_ok bmL" and l: "lru_pool bmL"
    by (auto simp: lru_pool_def)
  from run_ok [OF ok, of ops w] obtain rcs bmL1 w1 where
    r: "run ops (bmL, w) = Some (rcs, bmL1, w1)" by blast
  with run_restrat [OF ok l, of ops w]
  have "run ops (restrat RS_LRU_K bmL, w) = Some (rcs, restrat RS_LRU_K bmL1, w1)" by simp
  with init_restrat [OF assms] r observe_restrat [of RS_LRU_K bmL1] show ?thesis by blast
qed

theorem lru_k_behaves_as_lru_witness:
  "\<exists>bmK rcs bmL1 bmK1 w1.
     initBufferPool blank_pool ''db'' 2 RS_LRU_K (disk_pages 4 4) = Return (RC_OK, bmK) \<and>
     run [Pin 0, Unpin 0, Pin 1, Unpin 1, Pin 0, Unpin 0, Pin 2]
       (fresh_pool 2 RS_LRU (disk_pages 4 4), disk_pages 4 4) = Some (rcs, bmL1, w1) \<and>
     run [Pin 0, Unpin 0, Pin 1, Unpin 1, Pin 0, Unpin 0, Pin 2]
       (bmK, disk_pages 4 4) = Some (rcs, bmK1, w1) \<and>
     rcs = [RC_OK, RC_OK, RC_OK, RC_OK, RC_OK, RC_OK, RC_OK] \<and>
     map_option getFrameContents (mgmtData bmL1) = Some [0, 2] \<and>
     map_option observe (mgmtData bmK1) = map_option observe (mgmtData bmL1)"
proof -
  let ?ops = "[Pin 0, Unpin 0, Pin 1, Unpin 1, Pin 0, Unpin 0, Pin 2]"
  from lru_k_behaves_as_lru [OF lru_pool_init_eval, of ?ops "disk_pages 4 4"]
  obtain bmK rcs bmL1 bmK1 w1 where
    i: "initBufferPool blank_pool ''db'' 2 RS_LRU_K (disk_pages 4 4) = Return (RC_OK, bmK)"
    and rl: "run ?ops (fresh_pool 2 RS_LRU (disk_pages 4 4), disk_pages 4 4) = Some (rcs, bmL1, w1)"
    and rk: "run ?ops (bmK, disk_pages 4 4) = Some (rcs, bmK1, w1)"
    and ob: "map_option observe (mgmtData bmK1) = map_option observe (mgmtData bmL1)"
    by blast
  from lru_touch_run_eval rl
  have "rcs = [RC_OK, RC_OK, RC_OK, RC_OK, RC_OK, RC_OK, RC_OK]"
    and "map_option getFrameContents (mgmtData bmL1) = Some [0, 2]"
    by auto
  with i rl rk ob show ?thesis by blast
qed

end
